theory Spec2Isabelle
  imports Complex_Main "HOL-Library.AList" "HOL-Library.Multiset"
begin

section \<open>JavaScript values used by the dashboard\<close>

text \<open>
  A JavaScript number is a finite value, one of the two infinities, or NaN. Finite
  doubles are modelled by the real numbers they denote. A field read from the CSV by \<open>d3.autoType\<close>
  is a number or \<open>null\<close> (an empty cell); \<open>null\<close> is \<open>None\<close>.
\<close>

datatype jsnum = Fin real | PInf | NInf | NaN

text \<open>\<open>ToNumber\<close>: \<open>null\<close> converts to \<open>0\<close>.\<close>

fun to_number :: "jsnum option \<Rightarrow> jsnum" where
  "to_number None = Fin 0"
| "to_number (Some v) = v"

text \<open>
  Rounding of a real number to the nearest double, ties to the even significand: the
  unit in the last place is \<open>2 ^ (e - 52)\<close> for the binary exponent \<open>e\<close> of the number, at
  least \<open>-1022\<close> (below that the doubles are subnormal), and a result of magnitude
  \<open>2 ^ 1024\<close> or more overflows to an infinity. The two zeros are not distinguished.
\<close>

definition round_even :: "real \<Rightarrow> int" where
  "round_even q =
     (let f = \<lfloor>q\<rfloor>
      in if q - of_int f < 1 / 2 then f
         else if 1 / 2 < q - of_int f then f + 1
         else if even f then f else f + 1)"

definition round_double :: "real \<Rightarrow> jsnum" where
  "round_double x =
     (if x = 0 then Fin 0
      else (let e = max \<lfloor>log 2 \<bar>x\<bar>\<rfloor> (- 1022);
                u = 2 powi (e - 52);
                y = of_int (round_even (x / u)) * u
            in if 2 ^ 1024 \<le> \<bar>y\<bar> then (if 0 < x then PInf else NInf) else Fin y))"

text \<open>
  The binary \<open>-\<close> on numbers: the exact difference of two finite numbers is rounded,
  with the IEEE rules for the infinities and NaN.
\<close>

fun js_sub :: "jsnum \<Rightarrow> jsnum \<Rightarrow> jsnum" where
  "js_sub (Fin a) (Fin b) = round_double (a - b)"
| "js_sub NaN _ = NaN"
| "js_sub _ NaN = NaN"
| "js_sub PInf PInf = NaN"
| "js_sub NInf NInf = NaN"
| "js_sub PInf _ = PInf"
| "js_sub NInf _ = NInf"
| "js_sub (Fin a) PInf = NInf"
| "js_sub (Fin a) NInf = PInf"

text \<open>The relational operators \<open><\<close> and \<open>></\<close> on numbers: false when either side is NaN.\<close>

fun js_lt :: "jsnum \<Rightarrow> jsnum \<Rightarrow> bool" where
  "js_lt NaN _ = False"
| "js_lt _ NaN = False"
| "js_lt (Fin a) (Fin b) = (a < b)"
| "js_lt _ NInf = False"
| "js_lt NInf _ = True"
| "js_lt PInf _ = False"
| "js_lt (Fin a) PInf = True"

definition js_gt :: "jsnum \<Rightarrow> jsnum \<Rightarrow> bool" where
  "js_gt a b = js_lt b a"

text \<open>\<open>a >= b\<close>: true when \<open>a > b\<close> or the two are equal numbers, false with a NaN.\<close>

definition js_ge :: "jsnum \<Rightarrow> jsnum \<Rightarrow> bool" where
  "js_ge a b = (a \<noteq> NaN \<and> b \<noteq> NaN \<and> \<not> js_lt a b)"

fun isFinite :: "jsnum \<Rightarrow> bool" where
  "isFinite (Fin a) = True"
| "isFinite _ = False"

text \<open>Truthiness of a number: \<open>0\<close> and NaN are falsy.\<close>

fun truthy_num :: "jsnum \<Rightarrow> bool" where
  "truthy_num (Fin a) = (a \<noteq> 0)"
| "truthy_num NaN = False"
| "truthy_num _ = True"

section \<open>Template strings: decimal rendering of integers\<close>

text \<open>
  Years and buffer radii are integers; a template literal renders them in decimal,
  with a leading \<open>-\<close> when negative.
\<close>

definition digit_char :: "nat \<Rightarrow> char" where
  "digit_char d =
     (if d = 0 then CHR ''0'' else if d = 1 then CHR ''1'' else if d = 2 then CHR ''2''
      else if d = 3 then CHR ''3'' else if d = 4 then CHR ''4'' else if d = 5 then CHR ''5''
      else if d = 6 then CHR ''6'' else if d = 7 then CHR ''7'' else if d = 8 then CHR ''8''
      else CHR ''9'')"

fun show_nat :: "nat \<Rightarrow> string" where
  "show_nat n = (if n < 10 then [digit_char n] else show_nat (n div 10) @ [digit_char (n mod 10)])"

declare show_nat.simps [simp del]

definition show_int :: "int \<Rightarrow> string" where
  "show_int i = (if i < 0 then CHR ''-'' # show_nat (nat (- i)) else show_nat (nat i))"

section \<open>Configuration and rows\<close>

definition years :: "int list" where
  "years = [1990, 2000, 2010]"

definition buffers :: "int list" where
  "buffers = [30, 75, 300]"

text \<open>
  A row of the country table after \<open>d3.autoType\<close>: the entity code is a string, year and
  buffer radius are integer-valued numbers, the measured fields are numbers or \<open>null\<close>.
\<close>

record row =
  iso3 :: string
  year :: int
  buffer_km :: int
  pct_near :: "jsnum option"
  pop_near :: "jsnum option"
  num_plants :: "jsnum option"

definition keyExposure :: "string \<Rightarrow> int \<Rightarrow> int \<Rightarrow> string" where
  "keyExposure i y b = i @ ''_'' @ show_int y @ ''_'' @ show_int b"

definition keyYearBuffer :: "int \<Rightarrow> int \<Rightarrow> string" where
  "keyYearBuffer y b = show_int y @ ''_'' @ show_int b"

text \<open>\<open>countryRows.filter(d => buffers.includes(d.buffer_km))\<close>\<close>

definition filterBuffers :: "row list \<Rightarrow> row list" where
  "filterBuffers rows = filter (\<lambda>d. buffer_km d \<in> set buffers) rows"

section \<open>Map objects, grouping and sorting\<close>

text \<open>
  A JavaScript \<open>Map\<close> keeps its entries in insertion order: \<open>set\<close> on a key that is
  present replaces the value in place, \<open>set\<close> on a new key appends an entry. \<open>get\<close> on
  a missing key is \<open>undefined\<close>, here \<open>None\<close>.
\<close>

type_synonym ('k, 'v) jsmap = "('k \<times> 'v) list"

definition map_get :: "('k, 'v) jsmap \<Rightarrow> 'k \<Rightarrow> 'v option" where
  "map_get m k = map_of m k"

definition map_set :: "'k \<Rightarrow> 'v \<Rightarrow> ('k, 'v) jsmap \<Rightarrow> ('k, 'v) jsmap" where
  "map_set k v m = AList.update k v m"

definition map_size :: "('k, 'v) jsmap \<Rightarrow> nat" where
  "map_size m = length m"

text \<open>
  \<open>d3.group(values, key)\<close>: one pass over the values; a value joins the group of its
  key when the group exists, and opens a new group otherwise.
\<close>

definition group_add :: "'k \<Rightarrow> 'a \<Rightarrow> ('k, 'a list) jsmap \<Rightarrow> ('k, 'a list) jsmap" where
  "group_add k x m =
     (case map_get m k of None \<Rightarrow> map_set k [x] m | Some g \<Rightarrow> map_set k (g @ [x]) m)"

definition d3_group :: "('a \<Rightarrow> 'k) \<Rightarrow> 'a list \<Rightarrow> ('k, 'a list) jsmap" where
  "d3_group key xs = foldl (\<lambda>m x. group_add (key x) x m) [] xs"

text \<open>\<open>d3.group(values, key1, key2)\<close>: every group of the first key is grouped again.\<close>

definition d3_group2 ::
  "('a \<Rightarrow> 'k) \<Rightarrow> ('a \<Rightarrow> 'j) \<Rightarrow> 'a list \<Rightarrow> ('k, ('j, 'a list) jsmap) jsmap" where
  "d3_group2 key1 key2 xs = map (\<lambda>(k, g). (k, d3_group key2 g)) (d3_group key1 xs)"

text \<open>
  \<open>d3.ascending\<close> and \<open>d3.descending\<close>: NaN when an argument is \<open>null\<close> or the two
  are not comparable, else \<open>-1\<close>, \<open>1\<close> or \<open>0\<close>.
\<close>

definition d3_ascending :: "jsnum option \<Rightarrow> jsnum option \<Rightarrow> jsnum" where
  "d3_ascending a b =
     (case (a, b) of
        (Some x, Some y) \<Rightarrow>
          if js_lt x y then Fin (- 1) else if js_gt x y then Fin 1
          else if js_ge x y then Fin 0 else NaN
      | _ \<Rightarrow> NaN)"

definition d3_descending :: "jsnum option \<Rightarrow> jsnum option \<Rightarrow> jsnum" where
  "d3_descending a b =
     (case (a, b) of
        (Some x, Some y) \<Rightarrow>
          if js_lt y x then Fin (- 1) else if js_gt y x then Fin 1
          else if js_ge y x then Fin 0 else NaN
      | _ \<Rightarrow> NaN)"

text \<open>
  \<open>Array.prototype.sort(compare)\<close> is stable, and a NaN from the comparator counts as
  \<open>0\<close>. For a consistent comparator the result is the one stable sorted arrangement,
  which this insertion sort computes; with an inconsistent comparator (NaN among the
  compared values) the order that JavaScript produces is implementation-defined.
\<close>

fun insort_cmp :: "('a \<Rightarrow> 'a \<Rightarrow> jsnum) \<Rightarrow> 'a \<Rightarrow> 'a list \<Rightarrow> 'a list" where
  "insort_cmp cmp x [] = [x]"
| "insort_cmp cmp x (y # ys) =
     (if js_gt (cmp x y) (Fin 0) then y # insort_cmp cmp x ys else x # y # ys)"

definition js_sort :: "('a \<Rightarrow> 'a \<Rightarrow> jsnum) \<Rightarrow> 'a list \<Rightarrow> 'a list" where
  "js_sort cmp xs = foldr (insort_cmp cmp) xs []"

section \<open>loadData: the indices\<close>

record store =
  countryRows :: "row list"
  exposureByKey :: "(string, row) jsmap"
  exposuresByCountry :: "(string, row list) jsmap"
  rankByYearBuffer :: "(string, (string, nat) jsmap) jsmap"
  deltaExposureByKey :: "(string, jsnum option) jsmap"
  maxDeltaByBuffer :: "(int, jsnum) jsmap"

text \<open>\<open>countryRows.forEach(d => exposureByKey.set(keyExposure(d.iso3, d.year, d.buffer_km), d))\<close>\<close>

definition build_exposureByKey :: "row list \<Rightarrow> (string, row) jsmap" where
  "build_exposureByKey rows =
     foldl (\<lambda>m d. map_set (keyExposure (iso3 d) (year d) (buffer_km d)) d m) [] rows"

text \<open>The rows ranked at a (year, buffer) pair, and the rank map built from them.\<close>

definition rank_subset :: "row list \<Rightarrow> int \<Rightarrow> int \<Rightarrow> row list" where
  "rank_subset rows y b =
     filter (\<lambda>d. year d = y \<and> buffer_km d = b \<and> pct_near d \<noteq> None) rows"

definition rank_sorted :: "row list \<Rightarrow> int \<Rightarrow> int \<Rightarrow> row list" where
  "rank_sorted rows y b =
     js_sort (\<lambda>a b. d3_descending (pct_near a) (pct_near b)) (rank_subset rows y b)"

definition rank_map :: "row list \<Rightarrow> int \<Rightarrow> int \<Rightarrow> (string, nat) jsmap" where
  "rank_map rows y b =
     (let subset = rank_sorted rows y b
      in foldl (\<lambda>m (d, i). map_set (iso3 d) (i + 1) m) [] (zip subset [0..<length subset]))"

definition build_rankByYearBuffer :: "row list \<Rightarrow> (string, (string, nat) jsmap) jsmap" where
  "build_rankByYearBuffer rows =
     foldl (\<lambda>m y. foldl (\<lambda>m b. map_set (keyYearBuffer y b) (rank_map rows y b) m) m buffers)
       [] years"

text \<open>
  The decade change. The state of the walk is the pair of \<open>deltaExposureByKey\<close> and
  \<open>maxDeltaByBuffer\<close>; \<open>delta_step\<close> is the body of the \<open>for (const r of sorted)\<close> loop
  without the final \<open>prev = r\<close>.
\<close>

type_synonym dmaps = "(string, jsnum option) jsmap \<times> (int, jsnum) jsmap"

definition clip_delta :: "jsnum \<Rightarrow> jsnum option" where
  "clip_delta d =
     (let delta = (if \<not> isFinite d then None else Some d)
      in case delta of
           None \<Rightarrow> None
         | Some v \<Rightarrow> if js_lt v (Fin 0) then Some (Fin 0) else Some v)"

definition old_max :: "(int, jsnum) jsmap \<Rightarrow> int \<Rightarrow> jsnum" where
  "old_max mm b =
     (case map_get mm b of None \<Rightarrow> Fin 0 | Some v \<Rightarrow> if truthy_num v then v else Fin 0)"

definition delta_step :: "string \<Rightarrow> int \<Rightarrow> row option \<Rightarrow> row \<Rightarrow> dmaps \<Rightarrow> dmaps" where
  "delta_step i b prev r st =
     (case st of (dm, mm) \<Rightarrow>
        (case prev of
           None \<Rightarrow> (map_set (keyExposure i (year r) b) None dm, mm)
         | Some p \<Rightarrow>
             (let delta = clip_delta (js_sub (to_number (pop_near r)) (to_number (pop_near p)));
                  dm' = map_set (keyExposure i (year r) b) delta dm
              in case delta of
                   None \<Rightarrow> (dm', mm)
                 | Some d \<Rightarrow> if js_gt d (old_max mm b) then (dm', map_set b d mm) else (dm', mm))))"

fun walk :: "string \<Rightarrow> int \<Rightarrow> row option \<Rightarrow> row list \<Rightarrow> dmaps \<Rightarrow> dmaps" where
  "walk i b prev [] st = st"
| "walk i b prev (r # rs) st = walk i b (Some r) rs (delta_step i b prev r st)"

definition sort_by_year :: "row list \<Rightarrow> row list" where
  "sort_by_year rows =
     js_sort (\<lambda>a b. d3_ascending (Some (Fin (real_of_int (year a)))) (Some (Fin (real_of_int (year b)))))
       rows"

definition compute_deltas :: "row list \<Rightarrow> dmaps" where
  "compute_deltas rows =
     foldl (\<lambda>st (i, byBuffer). foldl (\<lambda>st (b, rs). walk i b None (sort_by_year rs) st) st byBuffer)
       ([], []) (d3_group2 iso3 buffer_km rows)"

definition loadData :: "row list \<Rightarrow> store" where
  "loadData raw =
     (let rows = filterBuffers raw; dd = compute_deltas rows
      in \<lparr> countryRows = rows,
           exposureByKey = build_exposureByKey rows,
           exposuresByCountry = d3_group iso3 rows,
           rankByYearBuffer = build_rankByYearBuffer rows,
           deltaExposureByKey = fst dd,
           maxDeltaByBuffer = snd dd \<rparr>)"

text \<open>The primary key of a row: the triple (entity, year, buffer).\<close>

definition row_key :: "row \<Rightarrow> string \<times> int \<times> int" where
  "row_key d = (iso3 d, year d, buffer_km d)"

text \<open>A small table of rows, used to instantiate the theorems below.\<close>

definition mk_row :: "string \<Rightarrow> int \<Rightarrow> int \<Rightarrow> jsnum option \<Rightarrow> jsnum option \<Rightarrow> row" where
  "mk_row i y b pct pop =
     \<lparr> iso3 = i, year = y, buffer_km = b, pct_near = pct, pop_near = pop, num_plants = None \<rparr>"

definition example_rows :: "row list" where
  "example_rows =
     [mk_row ''FRA'' 2010 30 (Some (Fin 5)) (Some (Fin 150)),
      mk_row ''FRA'' 2000 30 (Some (Fin 3)) (Some (Fin 100)),
      mk_row ''DEU'' 2010 30 (Some (Fin 5)) (Some (Fin 70)),
      mk_row ''DEU'' 2000 30 None (Some (Fin 90)),
      mk_row ''USA'' 2010 40 (Some (Fin 9)) (Some (Fin 70))]"

text \<open>
  A table for the rank index: a tie, a row with a \<open>null\<close> percentage, a larger percentage
  later in the input, a second year and a row outside the buffer set.
\<close>

definition rank_rows :: "row list" where
  "rank_rows =
     [mk_row ''FRA'' 2010 30 (Some (Fin 5)) (Some (Fin 150)),
      mk_row ''DEU'' 2010 30 (Some (Fin 5)) (Some (Fin 70)),
      mk_row ''NLD'' 2010 30 None (Some (Fin 40)),
      mk_row ''JPN'' 2010 30 (Some (Fin 9)) (Some (Fin 90)),
      mk_row ''FRA'' 2000 30 (Some (Fin 3)) (Some (Fin 100)),
      mk_row ''USA'' 2010 40 (Some (Fin 7)) (Some (Fin 70))]"

text \<open>
  Vocabulary of the ranking statements: \<open>precedes xs x y\<close> holds when \<open>y\<close> occurs after the
  first occurrence of \<open>x\<close> in \<open>xs\<close>; \<open>pct_val\<close> reads a finite percentage.
\<close>


fun precedes :: "'a list \<Rightarrow> 'a \<Rightarrow> 'a \<Rightarrow> bool" where
  "precedes [] x y = False"
| "precedes (z # zs) x y = (if z = x then y \<in> set zs else precedes zs x y)"

definition pct_val :: "row \<Rightarrow> real" where
  "pct_val d = (case pct_near d of Some (Fin p) \<Rightarrow> p | _ \<Rightarrow> 0)"

definition finite_pct :: "row \<Rightarrow> bool" where
  "finite_pct d = (case pct_near d of Some (Fin p) \<Rightarrow> True | _ \<Rightarrow> False)"

text \<open>
  The reads of the map view: \<open>deltaExposureByKey.get(keyExposure(iso3, year, buffer))\<close> and
  \<open>maxDeltaByBuffer.get(state.buffer) || 1\<close>.
\<close>

definition deltaAt :: "store \<Rightarrow> string \<Rightarrow> int \<Rightarrow> int \<Rightarrow> jsnum option option" where
  "deltaAt st i y b = map_get (deltaExposureByKey st) (keyExposure i y b)"

definition maxDeltaPeople :: "store \<Rightarrow> int \<Rightarrow> jsnum" where
  "maxDeltaPeople st b =
     (case map_get (maxDeltaByBuffer st) b of
        None \<Rightarrow> Fin 1
      | Some v \<Rightarrow> if truthy_num v then v else Fin 1)"

text \<open>A series with a gap: rows for 1990 and 2010, none for 2000.\<close>

definition gap_rows :: "row list" where
  "gap_rows =
     [mk_row ''FRA'' 1990 30 (Some (Fin 3)) (Some (Fin 100)),
      mk_row ''FRA'' 2010 30 (Some (Fin 5)) (Some (Fin 150))]"

section \<open>The walk as a list of writes\<close>

text \<open>
  For the proofs, one step of the walk is split into the write it performs, a triple of
  key, buffer and delta (\<open>step_event\<close>), and the effect of a write on the two maps
  (\<open>apply_event\<close>, on \<open>maxDeltaByBuffer\<close> alone \<open>max_event\<close>). \<open>all_events\<close> lists the
  writes of the whole computation in the order in which the groups are visited.
\<close>

type_synonym event = "string \<times> int \<times> jsnum option"

definition apply_event :: "event \<Rightarrow> dmaps \<Rightarrow> dmaps" where
  "apply_event e st =
     (case e of (k, b, delta) \<Rightarrow>
        (case st of (dm, mm) \<Rightarrow>
           (case delta of
              None \<Rightarrow> (map_set k delta dm, mm)
            | Some d \<Rightarrow>
                if js_gt d (old_max mm b) then (map_set k delta dm, map_set b d mm)
                else (map_set k delta dm, mm))))"

definition step_event :: "string \<Rightarrow> int \<Rightarrow> row option \<Rightarrow> row \<Rightarrow> event" where
  "step_event i b prev r =
     (keyExposure i (year r) b, b,
      case prev of
        None \<Rightarrow> None
      | Some p \<Rightarrow> clip_delta (js_sub (to_number (pop_near r)) (to_number (pop_near p))))"

fun walk_events :: "string \<Rightarrow> int \<Rightarrow> row option \<Rightarrow> row list \<Rightarrow> event list" where
  "walk_events i b prev [] = []"
| "walk_events i b prev (r # rs) = step_event i b prev r # walk_events i b (Some r) rs"

definition group_events :: "string \<times> (int, row list) jsmap \<Rightarrow> event list" where
  "group_events g =
     (case g of (i, byBuffer) \<Rightarrow>
        concat (map (\<lambda>(b, rs). walk_events i b None (sort_by_year rs)) byBuffer))"

definition all_events :: "row list \<Rightarrow> event list" where
  "all_events rows = concat (map group_events (d3_group2 iso3 buffer_km rows))"

definition max_event :: "event \<Rightarrow> (int, jsnum) jsmap \<Rightarrow> (int, jsnum) jsmap" where
  "max_event e mm =
     (case e of (k, b, delta) \<Rightarrow>
        (case delta of
           None \<Rightarrow> mm
         | Some d \<Rightarrow> if js_gt d (old_max mm b) then map_set b d mm else mm))"

definition good_delta :: "jsnum option \<Rightarrow> bool" where
  "good_delta d = (case d of None \<Rightarrow> True | Some (Fin x) \<Rightarrow> 0 \<le> x | _ \<Rightarrow> False)"

definition pos_map :: "(int, jsnum) jsmap \<Rightarrow> bool" where
  "pos_map mm = (\<forall>p\<in>set mm. \<exists>x. snd p = Fin x \<and> 0 < x)"

definition row_string_key :: "row \<Rightarrow> string" where
  "row_string_key d = keyExposure (iso3 d) (year d) (buffer_km d)"

section \<open>View state and playback\<close>

text \<open>
  The module-level \<open>state\<close> object, the \<open>playTimer\<close> variable, and the browser's table of
  active interval timers. A timer is its handle (a positive integer, which \<open>setInterval\<close>
  returns) and the \<open>idx\<close> variable that its callback closes over. Writes to the page
  (button label, slider, rendering) are outside the model.
\<close>

record vstate =
  st_year :: int
  st_buffer :: int
  selectedIso3 :: "string option"
  showPlants :: bool
  playing :: bool

record app =
  state :: vstate
  playTimer :: "nat option"
  timers :: "(nat, int) jsmap"
  next_handle :: nat

definition init_app :: app where
  "init_app =
     \<lparr> state = \<lparr> st_year = 2010, st_buffer = 30, selectedIso3 = None, showPlants = False,
                 playing = False \<rparr>,
       playTimer = None, timers = [], next_handle = 1 \<rparr>"

text \<open>\<open>Array.prototype.indexOf\<close>: the first index of the value, \<open>-1\<close> when absent.\<close>

fun indexOf :: "'a list \<Rightarrow> 'a \<Rightarrow> int" where
  "indexOf [] x = - 1"
| "indexOf (y # ys) x =
     (if y = x then 0 else (let i = indexOf ys x in if i < 0 then - 1 else i + 1))"

definition startPlayback :: "app \<Rightarrow> app" where
  "startPlayback a =
     (let idx0 = indexOf years (st_year (state a));
          idx = (if idx0 < 0 then 0 else idx0);
          h = next_handle a
      in a \<lparr> state := (state a) \<lparr> playing := True \<rparr>,
             playTimer := Some h,
             timers := map_set h idx (timers a),
             next_handle := h + 1 \<rparr>)"

text \<open>
  One run of the interval callback of timer \<open>h\<close>; a cleared timer does not run. The
  closure's \<open>idx\<close> is never negative, so \<open>%\<close> is \<open>mod\<close> and \<open>years[idx]\<close> is in range.
\<close>

definition tick :: "nat \<Rightarrow> app \<Rightarrow> app" where
  "tick h a =
     (case map_get (timers a) h of
        None \<Rightarrow> a
      | Some idx0 \<Rightarrow>
          (let idx = (idx0 + 1) mod int (length years)
           in a \<lparr> state := (state a) \<lparr> st_year := years ! nat idx \<rparr>,
                  timers := map_set h idx (timers a) \<rparr>))"

definition clearInterval :: "nat \<Rightarrow> (nat, int) jsmap \<Rightarrow> (nat, int) jsmap" where
  "clearInterval h ts = filter (\<lambda>p. fst p \<noteq> h) ts"

definition stopPlayback :: "app \<Rightarrow> app" where
  "stopPlayback a =
     (let a1 = a \<lparr> state := (state a) \<lparr> playing := False \<rparr> \<rparr>
      in case playTimer a1 of
           None \<Rightarrow> a1
         | Some h \<Rightarrow>
             if h \<noteq> 0 then a1 \<lparr> timers := clearInterval h (timers a1), playTimer := None \<rparr>
             else a1)"

text \<open>
  The handlers that \<open>initControls\<close> and \<open>initMap\<close> install, and the timer callback. The
  play button toggles: it stops when \<open>state.playing\<close> is set and starts otherwise.
\<close>

datatype ui_event =
  PlayClick | TimerTick nat | YearInput int | BufferChange int | PlantsToggle bool
  | CountryClick string

fun fire :: "ui_event \<Rightarrow> app \<Rightarrow> app" where
  "fire PlayClick a = (if playing (state a) then stopPlayback a else startPlayback a)"
| "fire (TimerTick h) a = tick h a"
| "fire (YearInput y) a = a \<lparr> state := (state a) \<lparr> st_year := y \<rparr> \<rparr>"
| "fire (BufferChange b) a = a \<lparr> state := (state a) \<lparr> st_buffer := b \<rparr> \<rparr>"
| "fire (PlantsToggle c) a = a \<lparr> state := (state a) \<lparr> showPlants := c \<rparr> \<rparr>"
| "fire (CountryClick i) a = a \<lparr> state := (state a) \<lparr> selectedIso3 := Some i \<rparr> \<rparr>"

inductive reachable :: "app \<Rightarrow> bool" where
  reachable_init: "reachable init_app"
| reachable_fire: "reachable a \<Longrightarrow> reachable (fire e a)"

text \<open>The playback invariant: one timer while playing, none while stopped.\<close>

definition playback_inv :: "app \<Rightarrow> bool" where
  "playback_inv a =
     (0 < next_handle a \<and>
      (if playing (state a)
       then (\<exists>h idx. playTimer a = Some h \<and> 0 < h \<and> h < next_handle a \<and> timers a = [(h, idx)])
       else playTimer a = None \<and> timers a = []))"





section \<open>featureIso3\<close>

text \<open>
  A JavaScript string is a sequence of UTF-16 code units, here natural numbers; \<open>js_lit\<close>
  writes an ASCII literal. A GeoJSON feature has an \<open>id\<close> and a \<open>properties\<close> object, a
  dictionary from property names to values (a missing property reads \<open>undefined\<close>;
  \<open>f.properties || {}\<close> reads every property of a missing object as \<open>undefined\<close>). The
  values that occur are strings and integer numbers.
\<close>

type_synonym jsstring = "nat list"

definition js_lit :: "string \<Rightarrow> jsstring" where
  "js_lit s = map of_char s"

datatype jsval = Undefined | Null | JStr jsstring | JNum int

record feature =
  feature_id :: jsval
  properties :: "(string \<rightharpoonup> jsval) option"

definition property :: "feature \<Rightarrow> string \<Rightarrow> jsval" where
  "property f name =
     (case properties f of
        None \<Rightarrow> Undefined
      | Some p \<Rightarrow> (case p name of None \<Rightarrow> Undefined | Some v \<Rightarrow> v))"

text \<open>\<open>!c\<close> holds for \<open>undefined\<close>, \<open>null\<close>, the empty string and \<open>0\<close>.\<close>

fun truthy :: "jsval \<Rightarrow> bool" where
  "truthy Undefined = False"
| "truthy Null = False"
| "truthy (JStr s) = (s \<noteq> [])"
| "truthy (JNum n) = (n \<noteq> 0)"

fun to_string :: "jsval \<Rightarrow> jsstring" where
  "to_string (JStr s) = s"
| "to_string (JNum n) = js_lit (show_int n)"
| "to_string Undefined = js_lit ''undefined''"
| "to_string Null = js_lit ''null''"

text \<open>
  \<open>String.prototype.trim\<close> removes white space and line terminators at both ends: TAB,
  LF, VT, FF, CR, SPACE, U+00A0, U+1680, U+2000 to U+200A, U+2028, U+2029, U+202F, U+205F,
  U+3000 and U+FEFF. The test \<open>/^[A-Za-z]{3}$/\<close> accepts exactly three code units that
  are ASCII letters, and \<open>toUpperCase()\<close> is applied to such strings only, where it
  subtracts 32 from the code of a lower case letter.
\<close>

definition is_space :: "nat \<Rightarrow> bool" where
  "is_space u =
     (u \<in> set [9, 10, 11, 12, 13, 32, 160, 5760, 8232, 8233, 8239, 8287, 12288, 65279]
      \<or> (8192 \<le> u \<and> u \<le> 8202))"

definition trim :: "jsstring \<Rightarrow> jsstring" where
  "trim s = rev (dropWhile is_space (rev (dropWhile is_space s)))"

definition is_letter :: "nat \<Rightarrow> bool" where
  "is_letter u = ((65 \<le> u \<and> u \<le> 90) \<or> (97 \<le> u \<and> u \<le> 122))"

definition is_upper :: "nat \<Rightarrow> bool" where
  "is_upper u = (65 \<le> u \<and> u \<le> 90)"

definition three_letters :: "jsstring \<Rightarrow> bool" where
  "three_letters s = (length s = 3 \<and> list_all is_letter s)"

definition to_upper :: "nat \<Rightarrow> nat" where
  "to_upper u = (if 97 \<le> u \<and> u \<le> 122 then u - 32 else u)"

definition toUpperCase :: "jsstring \<Rightarrow> jsstring" where
  "toUpperCase s = map to_upper s"

text \<open>
  \<open>const alias = { ANT: "NLD", KOS: "XKX" }\<close> and \<open>alias[up] || up\<close>. The object is read
  only at strings of three upper case letters, none of which names an inherited property.
\<close>

definition alias_table :: "(jsstring \<times> jsstring) list" where
  "alias_table = [(js_lit ''ANT'', js_lit ''NLD''), (js_lit ''KOS'', js_lit ''XKX'')]"

definition alias_or :: "jsstring \<Rightarrow> jsstring" where
  "alias_or up = (case map_of alias_table up of None \<Rightarrow> up | Some v \<Rightarrow> if v = [] then up else v)"

definition candidates :: "feature \<Rightarrow> jsval list" where
  "candidates f =
     [feature_id f, property f ''iso_a3'', property f ''ISO_A3'', property f ''adm0_a3'',
      property f ''ADM0_A3'', property f ''iso3'', property f ''ISO3'']"

text \<open>The \<open>for (const c of candidates)\<close> loop.\<close>

fun scan_candidates :: "jsval list \<Rightarrow> jsstring option" where
  "scan_candidates [] = None"
| "scan_candidates (c # cs) =
     (if \<not> truthy c then scan_candidates cs
      else (let s = trim (to_string c)
            in if three_letters s then (let up = toUpperCase s in Some (alias_or up))
               else scan_candidates cs))"

definition featureIso3 :: "feature \<Rightarrow> jsstring option" where
  "featureIso3 f = scan_candidates (candidates f)"

text \<open>
  A candidate resolves when it is present and its string form, white space at the ends
  apart, is exactly three letters.
\<close>

definition resolves :: "jsval \<Rightarrow> bool" where
  "resolves c = (truthy c \<and> three_letters (trim (to_string c)))"

text \<open>
  Features for the instances below: one whose id and properties compete, one with a
  numeric id, an unusable \<open>iso_a3\<close> and a legacy code in lower case under \<open>adm0_a3\<close>, one
  whose only code is padded with a space and a no-break space, and one without a code.
\<close>

definition feature_competing :: feature where
  "feature_competing =
     \<lparr> feature_id = JStr (js_lit ''fra''),
       properties = Some [''iso_a3'' \<mapsto> JStr (js_lit ''DEU''), ''ISO3'' \<mapsto> JStr (js_lit ''USA'')] \<rparr>"

definition example_feature :: feature where
  "example_feature =
     \<lparr> feature_id = JNum 250,
       properties = Some [''name'' \<mapsto> JStr (js_lit ''Netherlands Antilles''),
                          ''iso_a3'' \<mapsto> JStr (js_lit ''-99''),
                          ''adm0_a3'' \<mapsto> JStr (js_lit ''ant''),
                          ''ISO3'' \<mapsto> JStr (js_lit ''USA'')] \<rparr>"

definition feature_padded :: feature where
  "feature_padded =
     \<lparr> feature_id = JStr [],
       properties = Some [''ISO_A3'' \<mapsto> JStr ([32] @ js_lit ''Kos'' @ [160]),
                          ''iso3'' \<mapsto> JStr (js_lit ''DEU'')] \<rparr>"

definition feature_unresolved :: feature where
  "feature_unresolved =
     \<lparr> feature_id = JNum 0,
       properties = Some [''iso_a3'' \<mapsto> JStr (js_lit ''FRAN''), ''iso3'' \<mapsto> Null] \<rparr>"

section \<open>renderDetail: rank and percentile\<close>

text \<open>
  The rank lines of \<open>renderDetail\<close>:
  \<open>rank = rankMap ? rankMap.get(iso3) : null\<close>, \<open>denom = rankMap ? rankMap.size : null\<close> and
  \<open>pctRank = rank && denom ? ((rank / denom) * 100).toFixed(0) : null\<close>. Division by zero
  is not an error in JavaScript: it gives an infinity or NaN, which \<open>js_div\<close> makes
  visible. \<open>pctRank\<close> is the number handed to \<open>toFixed\<close>; the formatting is not modelled,
  and the quotient and the product are the exact ones (ranks and sizes are small
  integers; the rounding of the two operations is not modelled).
\<close>

definition js_div :: "nat \<Rightarrow> nat \<Rightarrow> jsnum" where
  "js_div a b = (if b = 0 then (if a = 0 then NaN else PInf) else Fin (real a / real b))"

fun js_times :: "jsnum \<Rightarrow> real \<Rightarrow> jsnum" where
  "js_times (Fin x) k = Fin (x * k)"
| "js_times v k = v"

definition detail_rank :: "store \<Rightarrow> string \<Rightarrow> int \<Rightarrow> int \<Rightarrow> nat option" where
  "detail_rank st i y b =
     (case map_get (rankByYearBuffer st) (keyYearBuffer y b) of
        None \<Rightarrow> None
      | Some rankMap \<Rightarrow> map_get rankMap i)"

definition detail_denom :: "store \<Rightarrow> int \<Rightarrow> int \<Rightarrow> nat option" where
  "detail_denom st y b =
     (case map_get (rankByYearBuffer st) (keyYearBuffer y b) of
        None \<Rightarrow> None
      | Some rankMap \<Rightarrow> Some (map_size rankMap))"

definition pctRank :: "nat option \<Rightarrow> nat option \<Rightarrow> jsnum option" where
  "pctRank rank denom =
     (case (rank, denom) of
        (Some r, Some d) \<Rightarrow> if r \<noteq> 0 \<and> d \<noteq> 0 then Some (js_times (js_div r d) 100) else None
      | _ \<Rightarrow> None)"

text \<open>The series of a row: the rows of its entity and buffer, in input order.\<close>

definition series :: "row list \<Rightarrow> row \<Rightarrow> row list" where
  "series rows r = filter (\<lambda>d. iso3 d = iso3 r \<and> buffer_km d = buffer_km r) rows"

section \<open>Theorems\<close>

text \<open>
  C7. Filtering the country rows to the fixed buffer set is idempotent: every row that
  survives has its buffer in the set, and a second application of the filter to already
  filtered rows returns them unchanged.
\<close>

theorem filterBuffers_idempotent:
  "filterBuffers (filterBuffers rows) = filterBuffers rows
   \<and> (\<forall>d\<in>set (filterBuffers rows). buffer_km d \<in> set buffers)"
  by (simp add: filterBuffers_def)

subsection \<open>Keys are injective\<close>
lemma digit_char_inj: "a < 10 \<Longrightarrow> b < 10 \<Longrightarrow> digit_char a = digit_char b \<Longrightarrow> a = b"
  by (simp add: digit_char_def split: if_splits) arith

lemma show_nat_no_underscore: "CHR ''_'' \<notin> set (show_nat n)"
  by (induction n rule: show_nat.induct) (subst show_nat.simps, simp add: digit_char_def)

lemma show_nat_no_minus: "CHR ''-'' \<notin> set (show_nat n)"
  by (induction n rule: show_nat.induct) (subst show_nat.simps, simp add: digit_char_def)

lemma show_nat_nonempty: "show_nat n \<noteq> []"
  by (subst show_nat.simps) simp

lemma show_nat_inj: "show_nat m = show_nat n \<Longrightarrow> m = n"
proof (induction m arbitrary: n rule: show_nat.induct)
  case (1 m)
  show ?case
  proof (cases "m < 10")
    case True
    then have m: "show_nat m = [digit_char m]" by (subst show_nat.simps) simp
    show ?thesis
    proof (cases "n < 10")
      case n: True
      then have "show_nat n = [digit_char n]" by (subst show_nat.simps) simp
      with m "1.prems" True n show ?thesis by (simp add: digit_char_inj)
    next
      case n: False
      then have "show_nat n = show_nat (n div 10) @ [digit_char (n mod 10)]"
        by (subst show_nat.simps) simp
      with m "1.prems" show ?thesis using show_nat_nonempty [of "n div 10"] by auto
    qed
  next
    case False
    then have m: "show_nat m = show_nat (m div 10) @ [digit_char (m mod 10)]"
      by (subst show_nat.simps) simp
    show ?thesis
    proof (cases "n < 10")
      case n: True
      then have "show_nat n = [digit_char n]" by (subst show_nat.simps) simp
      with m "1.prems" show ?thesis using show_nat_nonempty [of "m div 10"] by auto
    next
      case n: False
      then have "show_nat n = show_nat (n div 10) @ [digit_char (n mod 10)]"
        by (subst show_nat.simps) simp
      with m "1.prems" have e: "show_nat (m div 10) = show_nat (n div 10)"
        and d: "digit_char (m mod 10) = digit_char (n mod 10)" by simp_all
      from "1.IH" [OF False e] have "m div 10 = n div 10" .
      moreover from d have "m mod 10 = n mod 10" by (simp add: digit_char_inj)
      ultimately show ?thesis by (metis div_mult_mod_eq)
    qed
  qed
qed

lemma show_int_no_underscore: "CHR ''_'' \<notin> set (show_int i)"
  by (simp add: show_int_def show_nat_no_underscore)

lemma hd_show_nat_not_minus: "hd (show_nat n) \<noteq> CHR ''-''"
  using show_nat_no_minus [of n] show_nat_nonempty [of n] by (cases "show_nat n") auto

lemma show_int_inj: "show_int i = show_int j \<Longrightarrow> i = j"
proof -
  assume e: "show_int i = show_int j"
  show ?thesis
  proof (cases "i < 0")
    case True
    show ?thesis
    proof (cases "j < 0")
      case j: True
      with True e have "nat (- i) = nat (- j)" by (simp add: show_int_def show_nat_inj)
      with True j show ?thesis by simp
    next
      case j: False
      with True e have "CHR ''-'' # show_nat (nat (- i)) = show_nat (nat j)"
        by (simp add: show_int_def)
      then have "hd (show_nat (nat j)) = CHR ''-''" by (metis list.sel(1))
      then show ?thesis by (simp add: hd_show_nat_not_minus)
    qed
  next
    case False
    show ?thesis
    proof (cases "j < 0")
      case j: True
      with False e have "show_nat (nat i) = CHR ''-'' # show_nat (nat (- j))"
        by (simp add: show_int_def)
      then have "hd (show_nat (nat i)) = CHR ''-''" by (metis list.sel(1))
      then show ?thesis by (simp add: hd_show_nat_not_minus)
    next
      case j: False
      with False e have "nat i = nat j" by (simp add: show_int_def show_nat_inj)
      with False j show ?thesis by simp
    qed
  qed
qed

lemma split_at_sep:
  "c \<notin> set a \<Longrightarrow> c \<notin> set a' \<Longrightarrow> a @ c # r = a' @ c # r' \<Longrightarrow> a = a' \<and> r = r'"
proof (induction a arbitrary: a')
  case Nil
  then show ?case by (cases a') auto
next
  case (Cons x a)
  then show ?case by (cases a') auto
qed

lemma keyYearBuffer_inj:
  "keyYearBuffer y b = keyYearBuffer y' b' \<Longrightarrow> y = y' \<and> b = b'"
  using split_at_sep [of "CHR ''_''" "show_int y" "show_int y'" "show_int b" "show_int b'"]
  by (auto simp: keyYearBuffer_def show_int_no_underscore dest: show_int_inj)

lemma keyExposure_inj:
  assumes "keyExposure i y b = keyExposure i' y' b'"
  shows "i = i' \<and> y = y' \<and> b = b'"
proof -
  from assms have "rev (keyExposure i y b) = rev (keyExposure i' y' b')" by simp
  then have e: "rev (show_int b) @ CHR ''_'' # (rev (show_int y) @ CHR ''_'' # rev i)
      = rev (show_int b') @ CHR ''_'' # (rev (show_int y') @ CHR ''_'' # rev i')"
    by (simp add: keyExposure_def)
  have b: "rev (show_int b) = rev (show_int b')"
    and r: "rev (show_int y) @ CHR ''_'' # rev i = rev (show_int y') @ CHR ''_'' # rev i'"
    using split_at_sep [OF _ _ e] by (simp_all add: show_int_no_underscore)
  have "rev (show_int y) = rev (show_int y') \<and> rev i = rev i'"
    using split_at_sep [OF _ _ r] by (simp add: show_int_no_underscore)
  with b show ?thesis by (auto dest: show_int_inj)
qed
lemma map_of_foldl_set:
  "map_of (foldl (\<lambda>m d. map_set (kf d) (vf d) m) m0 xs) k =
     (case find (\<lambda>d. kf d = k) (rev xs) of Some d \<Rightarrow> Some (vf d) | None \<Rightarrow> map_of m0 k)"
  by (induction xs rule: rev_induct) (simp_all add: map_set_def update_conv')

lemma distinct_foldl_set:
  "distinct (map fst m0) \<Longrightarrow> distinct (map fst (foldl (\<lambda>m d. map_set (kf d) (vf d) m) m0 xs))"
  by (induction xs rule: rev_induct) (simp_all add: map_set_def distinct_update)

lemma find_distinct_key:
  "distinct (map f xs) \<Longrightarrow> d \<in> set xs \<Longrightarrow> find (\<lambda>e. f e = f d) xs = Some d"
  by (induction xs) auto

lemma single_entry:
  "distinct (map fst m) \<Longrightarrow> map_of m k = Some v \<Longrightarrow> filter (\<lambda>e. fst e = k) m = [(k, v)]"
proof (induction m)
  case Nil
  then show ?case by simp
next
  case (Cons e m)
  show ?case
  proof (cases "fst e = k")
    case True
    with Cons.prems have "e = (k, v)" by (cases e) simp
    moreover from True Cons.prems(1) have "k \<notin> fst ` set m" by auto
    then have "filter (\<lambda>e. fst e = k) m = []"
      unfolding filter_empty_conv by (metis image_eqI)
    ultimately show ?thesis by simp
  next
    case False
    with Cons show ?thesis by (cases e) auto
  qed
qed

lemma distinct_keyExposure:
  assumes "distinct (map row_key rows)"
  shows "distinct (map (\<lambda>d. keyExposure (iso3 d) (year d) (buffer_km d)) rows)"
proof -
  from assms have d: "distinct rows" and i: "inj_on row_key (set rows)"
    by (simp_all add: distinct_map)
  have "inj_on (\<lambda>d. keyExposure (iso3 d) (year d) (buffer_km d)) (set rows)"
  proof (rule inj_onI)
    fix x y
    assume x: "x \<in> set rows" and y: "y \<in> set rows"
      and e: "keyExposure (iso3 x) (year x) (buffer_km x) = keyExposure (iso3 y) (year y) (buffer_km y)"
    from keyExposure_inj [OF e] have "row_key x = row_key y" by (simp add: row_key_def)
    with i x y show "x = y" by (auto dest: inj_onD)
  qed
  with d show ?thesis by (simp add: distinct_map)
qed

lemma filterBuffers_example:
  "filterBuffers example_rows =
     [mk_row ''FRA'' 2010 30 (Some (Fin 5)) (Some (Fin 150)),
      mk_row ''FRA'' 2000 30 (Some (Fin 3)) (Some (Fin 100)),
      mk_row ''DEU'' 2010 30 (Some (Fin 5)) (Some (Fin 70)),
      mk_row ''DEU'' 2000 30 None (Some (Fin 90))]"
  by (simp add: filterBuffers_def example_rows_def buffers_def mk_row_def)

lemma show_int_numerals:
  "show_int 1990 = ''1990''" "show_int 2000 = ''2000''" "show_int 2010 = ''2010''"
  "show_int 30 = ''30''" "show_int 75 = ''75''" "show_int 300 = ''300''"
  by (simp_all add: show_int_def show_nat.simps digit_char_def)

theorem filterBuffers_idempotent_witness:
  "mk_row ''FRA'' 2010 30 (Some (Fin 5)) (Some (Fin 150)) \<in> set (filterBuffers example_rows)
   \<and> filterBuffers (filterBuffers example_rows) = filterBuffers example_rows
   \<and> buffer_km (mk_row ''FRA'' 2010 30 (Some (Fin 5)) (Some (Fin 150))) \<in> set buffers"
proof -
  have m: "mk_row ''FRA'' 2010 30 (Some (Fin 5)) (Some (Fin 150)) \<in> set (filterBuffers example_rows)"
    by (simp add: filterBuffers_example)
  from filterBuffers_idempotent [of example_rows] m show ?thesis by blast
qed

text \<open>
  C3. When the triple (entity, year, buffer) is a unique key of the filtered rows, the
  point index looked up at the key of a filtered row returns that row itself, with its
  fields unchanged, and the index holds exactly one entry under that key.
\<close>

theorem pointIndex_lookup:
  assumes "distinct (map row_key (filterBuffers raw))"
    and "d \<in> set (filterBuffers raw)"
  shows "map_get (exposureByKey (loadData raw)) (keyExposure (iso3 d) (year d) (buffer_km d)) = Some d
    \<and> filter (\<lambda>e. fst e = keyExposure (iso3 d) (year d) (buffer_km d)) (exposureByKey (loadData raw))
        = [(keyExposure (iso3 d) (year d) (buffer_km d), d)]"
proof -
  let ?kf = "\<lambda>d. keyExposure (iso3 d) (year d) (buffer_km d)"
  let ?rows = "filterBuffers raw"
  have dk: "distinct (map ?kf (rev ?rows))"
    using distinct_keyExposure [OF assms(1)] by (simp add: rev_map [symmetric])
  have "find (\<lambda>e. ?kf e = ?kf d) (rev ?rows) = Some d"
    using find_distinct_key [OF dk, of d] assms(2) by simp
  then have g: "map_of (build_exposureByKey ?rows) (?kf d) = Some d"
    by (simp add: build_exposureByKey_def map_of_foldl_set)
  have "distinct (map fst (build_exposureByKey ?rows))"
    unfolding build_exposureByKey_def by (rule distinct_foldl_set) simp
  from single_entry [OF this g] g show ?thesis
    by (simp add: loadData_def Let_def map_get_def)
qed

theorem pointIndex_lookup_witness:
  "distinct (map row_key (filterBuffers example_rows))
   \<and> mk_row ''FRA'' 2000 30 (Some (Fin 3)) (Some (Fin 100)) \<in> set (filterBuffers example_rows)
   \<and> map_get (exposureByKey (loadData example_rows)) ''FRA_2000_30''
       = Some (mk_row ''FRA'' 2000 30 (Some (Fin 3)) (Some (Fin 100)))"
proof -
  have d: "distinct (map row_key (filterBuffers example_rows))"
    by (simp add: filterBuffers_example row_key_def mk_row_def)
  have m: "mk_row ''FRA'' 2000 30 (Some (Fin 3)) (Some (Fin 100)) \<in> set (filterBuffers example_rows)"
    by (simp add: filterBuffers_example)
  have k: "keyExposure ''FRA'' 2000 30 = ''FRA_2000_30''"
    by (simp add: keyExposure_def show_int_numerals)
  from pointIndex_lookup [OF d m] d m k show ?thesis
    by (simp add: mk_row_def)
qed

subsection \<open>Sorting and the rank index\<close>

lemma precedes_decomp:
  "precedes xs x y \<longleftrightarrow> (\<exists>us vs ws. xs = us @ x # vs @ y # ws \<and> x \<notin> set us)"
proof (induction xs)
  case Nil
  then show ?case by simp
next
  case (Cons z zs)
  show ?case
  proof (cases "z = x")
    case True
    have "y \<in> set zs \<longleftrightarrow> (\<exists>vs ws. zs = vs @ y # ws)" by (metis in_set_conv_decomp)
    moreover have "(\<exists>us vs ws. x # zs = us @ x # vs @ y # ws \<and> x \<notin> set us)
        \<longleftrightarrow> (\<exists>vs ws. zs = vs @ y # ws)"
    proof
      assume "\<exists>us vs ws. x # zs = us @ x # vs @ y # ws \<and> x \<notin> set us"
      then obtain us vs ws where e: "x # zs = us @ x # vs @ y # ws" and n: "x \<notin> set us" by blast
      from e n have "us = []" by (cases us) auto
      with e show "\<exists>vs ws. zs = vs @ y # ws" by auto
    next
      assume "\<exists>vs ws. zs = vs @ y # ws"
      then obtain vs ws where "zs = vs @ y # ws" by blast
      then have "x # zs = [] @ x # vs @ y # ws \<and> x \<notin> set []" by simp
      then show "\<exists>us vs ws. x # zs = us @ x # vs @ y # ws \<and> x \<notin> set us" by blast
    qed
    ultimately show ?thesis using True by simp
  next
    case False
    have "(\<exists>us vs ws. z # zs = us @ x # vs @ y # ws \<and> x \<notin> set us)
        \<longleftrightarrow> (\<exists>us vs ws. zs = us @ x # vs @ y # ws \<and> x \<notin> set us)"
    proof
      assume "\<exists>us vs ws. z # zs = us @ x # vs @ y # ws \<and> x \<notin> set us"
      then obtain us vs ws where e: "z # zs = us @ x # vs @ y # ws" and n: "x \<notin> set us" by blast
      from e False obtain us' where u: "us = z # us'" by (cases us) auto
      with e n have "zs = us' @ x # vs @ y # ws \<and> x \<notin> set us'" by simp
      then show "\<exists>us vs ws. zs = us @ x # vs @ y # ws \<and> x \<notin> set us" by blast
    next
      assume "\<exists>us vs ws. zs = us @ x # vs @ y # ws \<and> x \<notin> set us"
      then obtain us vs ws where "zs = us @ x # vs @ y # ws" and "x \<notin> set us" by blast
      with False have "z # zs = (z # us) @ x # vs @ y # ws \<and> x \<notin> set (z # us)" by simp
      then show "\<exists>us vs ws. z # zs = us @ x # vs @ y # ws \<and> x \<notin> set us" by blast
    qed
    with False Cons.IH show ?thesis by simp
  qed
qed

lemma precedes_filter:
  "precedes xs x y \<Longrightarrow> P x \<Longrightarrow> P y \<Longrightarrow> precedes (filter P xs) x y"
  by (induction xs) (auto split: if_splits)

lemma precedes_total:
  "x \<in> set xs \<Longrightarrow> y \<in> set xs \<Longrightarrow> x \<noteq> y \<Longrightarrow> precedes xs x y \<or> precedes xs y x"
  by (induction xs) auto

lemma precedes_in_set: "precedes xs x y \<Longrightarrow> x \<in> set xs \<and> y \<in> set xs"
  by (induction xs) (auto split: if_splits)

lemma precedes_asym:
  "distinct xs \<Longrightarrow> precedes xs x y \<Longrightarrow> \<not> precedes xs y x"
  by (induction xs) (auto split: if_splits dest: precedes_in_set)


lemma set_insort_cmp: "set (insort_cmp cmp x ys) = insert x (set ys)"
  by (induction ys) auto

lemma length_insort_cmp: "length (insort_cmp cmp x ys) = Suc (length ys)"
  by (induction ys) auto

lemma distinct_map_insort_cmp:
  "distinct (map f (insort_cmp cmp x ys)) \<longleftrightarrow> f x \<notin> f ` set ys \<and> distinct (map f ys)"
  by (induction ys) (auto simp: set_insort_cmp)

lemma set_js_sort: "set (js_sort cmp xs) = set xs"
  by (induction xs) (simp_all add: js_sort_def set_insort_cmp)

lemma length_js_sort: "length (js_sort cmp xs) = length xs"
  by (induction xs) (simp_all add: js_sort_def length_insort_cmp)

lemma distinct_map_js_sort: "distinct (map f (js_sort cmp xs)) \<longleftrightarrow> distinct (map f xs)"
proof (induction xs)
  case Nil
  then show ?case by (simp add: js_sort_def)
next
  case (Cons x xs)
  have "js_sort cmp (x # xs) = insort_cmp cmp x (js_sort cmp xs)" by (simp add: js_sort_def)
  with Cons show ?case by (simp add: distinct_map_insort_cmp set_js_sort)
qed

lemma insort_cmp_eq_insort_key:
  "(\<forall>y\<in>set ys. js_gt (cmp x y) (Fin 0) \<longleftrightarrow> f y < f x) \<Longrightarrow>
   insort_cmp cmp x ys = insort_key f x ys"
  for f :: "'a \<Rightarrow> 'b::linorder"
  by (induction ys) (auto simp: not_le)

lemma js_sort_eq_sort_key:
  "(\<forall>x\<in>set xs. \<forall>y\<in>set xs. js_gt (cmp x y) (Fin 0) \<longleftrightarrow> f y < f x) \<Longrightarrow>
   js_sort cmp xs = sort_key f xs"
  for f :: "'a \<Rightarrow> 'b::linorder"
proof (induction xs)
  case Nil
  then show ?case by (simp add: js_sort_def)
next
  case (Cons x xs)
  then have ih: "js_sort cmp xs = sort_key f xs" by simp
  have "js_sort cmp (x # xs) = insort_cmp cmp x (js_sort cmp xs)" by (simp add: js_sort_def)
  also have "\<dots> = insort_key f x (js_sort cmp xs)"
    using Cons.prems by (intro insort_cmp_eq_insort_key) (simp add: set_js_sort)
  finally show ?case by (simp add: ih)
qed

lemma update_fresh: "k \<notin> fst ` set m \<Longrightarrow> AList.update k v m = m @ [(k, v)]"
  by (induction m) auto

lemma foldl_set_fresh:
  "distinct (map kf xs) \<Longrightarrow> kf ` set xs \<inter> fst ` set m0 = {} \<Longrightarrow>
   foldl (\<lambda>m d. map_set (kf d) (vf d) m) m0 xs = m0 @ map (\<lambda>d. (kf d, vf d)) xs"
proof (induction xs rule: rev_induct)
  case Nil
  then show ?case by simp
next
  case (snoc x xs)
  then have ih: "foldl (\<lambda>m d. map_set (kf d) (vf d) m) m0 xs = m0 @ map (\<lambda>d. (kf d, vf d)) xs"
    by auto
  from snoc.prems have "kf x \<notin> fst ` set (m0 @ map (\<lambda>d. (kf d, vf d)) xs)"
    by (auto simp: image_iff)
  then have "map_set (kf x) (vf x) (m0 @ map (\<lambda>d. (kf d, vf d)) xs)
      = (m0 @ map (\<lambda>d. (kf d, vf d)) xs) @ [(kf x, vf x)]"
    unfolding map_set_def by (rule update_fresh)
  moreover have "foldl (\<lambda>m d. map_set (kf d) (vf d) m) m0 (xs @ [x])
      = map_set (kf x) (vf x) (foldl (\<lambda>m d. map_set (kf d) (vf d) m) m0 xs)" by simp
  ultimately show ?case by (simp add: ih)
qed

lemma map_fst_zip_fun:
  "length xs = length ys \<Longrightarrow> map (\<lambda>p. f (fst p)) (zip xs ys) = map f xs"
  by (induction xs ys rule: list_induct2) auto

lemma rank_map_zip:
  assumes "distinct (map iso3 (rank_sorted rows y b))"
  shows "rank_map rows y b =
    zip (map iso3 (rank_sorted rows y b)) [1 ..< Suc (length (rank_sorted rows y b))]"
proof -
  let ?S = "rank_sorted rows y b"
  let ?n = "length ?S"
  have k: "map (\<lambda>(d, i). iso3 d) (zip ?S [0..<?n]) = map iso3 ?S"
    by (simp add: case_prod_unfold map_fst_zip_fun)
  have "rank_map rows y b = foldl (\<lambda>m p. map_set ((\<lambda>(d, i). iso3 d) p) ((\<lambda>(d, i). i + 1) p) m) []
      (zip ?S [0..<?n])"
    by (simp add: rank_map_def Let_def case_prod_unfold)
  also have "\<dots> = [] @ map (\<lambda>p. ((\<lambda>(d, i). iso3 d) p, (\<lambda>(d, i). i + 1) p)) (zip ?S [0..<?n])"
    by (rule foldl_set_fresh) (simp_all add: k assms)
  also have "\<dots> = zip (map iso3 ?S) (map Suc [0..<?n])"
    by (simp add: zip_map_map case_prod_unfold)
  finally show ?thesis by (simp add: map_Suc_upt)
qed


lemma keyYearBuffer_eq_iff [simp]:
  "keyYearBuffer y b = keyYearBuffer y' b' \<longleftrightarrow> y = y' \<and> b = b'"
  by (auto dest: keyYearBuffer_inj)

lemma rank_lookup:
  assumes "y \<in> set years" "b \<in> set buffers"
  shows "map_get (build_rankByYearBuffer rows) (keyYearBuffer y b) = Some (rank_map rows y b)"
  using assms
  by (auto simp: build_rankByYearBuffer_def years_def buffers_def map_get_def map_set_def
      update_conv')

lemma distinct_iso3_rank_subset:
  assumes "distinct (map row_key rows)"
  shows "distinct (map iso3 (rank_subset rows y b))"
proof -
  from assms have d: "distinct rows" and i: "inj_on row_key (set rows)"
    by (simp_all add: distinct_map)
  have "inj_on iso3 (set (rank_subset rows y b))"
  proof (rule inj_onI)
    fix x z
    assume x: "x \<in> set (rank_subset rows y b)" and z: "z \<in> set (rank_subset rows y b)"
      and e: "iso3 x = iso3 z"
    then have "row_key x = row_key z" by (simp add: rank_subset_def row_key_def)
    with i x z show "x = z" by (auto simp: rank_subset_def dest: inj_onD)
  qed
  with d show ?thesis by (simp add: distinct_map rank_subset_def)
qed

lemma rank_sorted_sort_key:
  assumes "\<forall>d\<in>set (rank_subset rows y b). finite_pct d"
  shows "rank_sorted rows y b = sort_key (\<lambda>d. - pct_val d) (rank_subset rows y b)"
  unfolding rank_sorted_def
proof (rule js_sort_eq_sort_key, intro ballI)
  fix x z
  assume "x \<in> set (rank_subset rows y b)" "z \<in> set (rank_subset rows y b)"
  with assms have "finite_pct x" "finite_pct z" by auto
  then obtain p q where "pct_near x = Some (Fin p)" "pct_near z = Some (Fin q)"
    by (auto simp: finite_pct_def split: option.splits jsnum.splits)
  then show "js_gt (d3_descending (pct_near x) (pct_near z)) (Fin 0) \<longleftrightarrow> - pct_val z < - pct_val x"
    by (simp add: d3_descending_def js_gt_def js_ge_def pct_val_def)
qed

lemma rank_of_position:
  assumes "distinct (map iso3 (rank_sorted rows y b))"
    and "rank_sorted rows y b = us @ a # vs"
  shows "map_get (rank_map rows y b) (iso3 a) = Some (Suc (length us))"
proof -
  let ?S = "rank_sorted rows y b"
  have i: "length us < length ?S" by (simp add: assms(2))
  have "map_of (zip (map iso3 ?S) [1 ..< Suc (length ?S)]) (map iso3 ?S ! length us)
      = Some ([1 ..< Suc (length ?S)] ! length us)"
    using assms(1) i by (intro map_of_zip_nth) simp_all
  moreover have "map iso3 ?S ! length us = iso3 a" by (simp add: assms(2) nth_append)
  moreover have "[1 ..< Suc (length ?S)] ! length us = Suc (length us)"
    using i by (simp del: upt_Suc)
  ultimately show ?thesis by (simp add: map_get_def rank_map_zip [OF assms(1)])
qed

lemma rank_precedes:
  assumes "distinct (map iso3 (rank_sorted rows y b))"
    and "precedes (rank_sorted rows y b) a c"
  shows "\<exists>ra rc. map_get (rank_map rows y b) (iso3 a) = Some ra
      \<and> map_get (rank_map rows y b) (iso3 c) = Some rc \<and> ra < rc"
proof -
  from assms(2) obtain us vs ws where S: "rank_sorted rows y b = us @ a # vs @ c # ws"
    by (auto simp: precedes_decomp)
  then have S': "rank_sorted rows y b = (us @ a # vs) @ c # ws" by simp
  from rank_of_position [OF assms(1) S] rank_of_position [OF assms(1) S']
  show ?thesis by simp
qed

lemma sorted_precedes:
  assumes "sorted (map f xs)" "precedes xs c a"
  shows "f c \<le> f a"
proof -
  from assms(2) obtain us vs ws where "xs = us @ c # vs @ a # ws"
    by (auto simp: precedes_decomp)
  with assms(1) show ?thesis by (simp add: sorted_append)
qed

lemma rank_order:
  assumes uniq: "distinct (map row_key rows)"
    and fin: "\<forall>d\<in>set (rank_subset rows y b). finite_pct d"
    and a: "a \<in> set (rank_subset rows y b)" and c: "c \<in> set (rank_subset rows y b)"
    and ord: "pct_val c < pct_val a \<or> (pct_val a = pct_val c \<and> precedes rows a c)"
  shows "\<exists>ra rc. map_get (rank_map rows y b) (iso3 a) = Some ra
      \<and> map_get (rank_map rows y b) (iso3 c) = Some rc \<and> ra < rc"
proof -
  let ?sub = "rank_subset rows y b"
  let ?S = "rank_sorted rows y b"
  let ?f = "\<lambda>d. - pct_val d"
  have S: "?S = sort_key ?f ?sub" by (rule rank_sorted_sort_key [OF fin])
  from uniq have drows: "distinct rows" by (simp add: distinct_map)
  then have dsub: "distinct ?sub" by (simp add: rank_subset_def)
  have dS: "distinct ?S" by (simp add: S dsub)
  have dk: "distinct (map iso3 ?S)"
    by (simp add: rank_sorted_def distinct_map_js_sort distinct_iso3_rank_subset [OF uniq])
  have ne: "a \<noteq> c"
  proof
    assume "a = c"
    with ord have "precedes rows a a" by simp
    with drows show False by (induction rows) (auto split: if_splits)
  qed
  have "\<not> precedes ?S c a"
  proof
    assume p: "precedes ?S c a"
    have "sorted (map ?f ?S)" by (simp add: S)
    from sorted_precedes [OF this p] have le: "pct_val a \<le> pct_val c" by simp
    with ord have eq: "pct_val a = pct_val c" and pr: "precedes rows a c" by auto
    let ?P = "\<lambda>d. ?f d = ?f a"
    have "precedes ?sub a c"
      using precedes_filter [OF pr, of "\<lambda>d. year d = y \<and> buffer_km d = b \<and> pct_near d \<noteq> None"] a c
      by (simp add: rank_subset_def)
    then have "precedes (filter ?P ?sub) a c" using eq by (intro precedes_filter) simp_all
    moreover have "precedes (filter ?P ?S) c a" using p eq by (intro precedes_filter) simp_all
    moreover have "filter ?P ?S = filter ?P ?sub" unfolding S by (rule sort_key_stable)
    moreover have "distinct (filter ?P ?sub)" using dsub by simp
    ultimately show False using precedes_asym by metis
  qed
  moreover have "a \<in> set ?S" "c \<in> set ?S" using a c by (simp_all add: rank_sorted_def set_js_sort)
  ultimately have "precedes ?S a c" using precedes_total [of a ?S c] ne by blast
  from rank_precedes [OF dk this] show ?thesis .
qed

lemma rank_map_ranks:
  assumes "distinct (map row_key (filterBuffers raw))"
    and "y \<in> set years" and "b \<in> set buffers"
  shows "\<exists>m. map_get (rankByYearBuffer (loadData raw)) (keyYearBuffer y b) = Some m
    \<and> map_size m = length (rank_subset (filterBuffers raw) y b)
    \<and> map snd m = [1 ..< Suc (length (rank_subset (filterBuffers raw) y b))]
    \<and> (\<forall>e. map_get m e \<noteq> None \<longleftrightarrow> e \<in> iso3 ` set (rank_subset (filterBuffers raw) y b))
    \<and> ((\<forall>d\<in>set (rank_subset (filterBuffers raw) y b). finite_pct d) \<longrightarrow>
        (\<forall>a\<in>set (rank_subset (filterBuffers raw) y b).
         \<forall>c\<in>set (rank_subset (filterBuffers raw) y b).
           pct_val c < pct_val a \<or> (pct_val a = pct_val c \<and> precedes (filterBuffers raw) a c) \<longrightarrow>
           (\<exists>ra rc. map_get m (iso3 a) = Some ra \<and> map_get m (iso3 c) = Some rc \<and> ra < rc)))"
proof -
  let ?rows = "filterBuffers raw"
  let ?m = "rank_map ?rows y b"
  let ?S = "rank_sorted ?rows y b"
  have dk: "distinct (map iso3 ?S)"
    by (simp add: rank_sorted_def distinct_map_js_sort distinct_iso3_rank_subset [OF assms(1)])
  have n: "length ?S = length (rank_subset ?rows y b)"
    by (simp add: rank_sorted_def length_js_sort)
  have z: "?m = zip (map iso3 ?S) [1 ..< Suc (length ?S)]" by (rule rank_map_zip [OF dk])
  have 1: "map_get (rankByYearBuffer (loadData raw)) (keyYearBuffer y b) = Some ?m"
    using rank_lookup [OF assms(2,3)] by (simp add: loadData_def Let_def)
  have l: "length [1 ..< Suc (length ?S)] = length ?S"
    by (simp only: length_upt diff_Suc_1)
  have "length (zip (map iso3 ?S) [1 ..< Suc (length ?S)]) = length ?S"
    by (simp only: length_zip length_map l min.idem)
  then have 2: "map_size ?m = length (rank_subset ?rows y b)"
    using z n by (simp add: map_size_def)
  have "map snd (zip (map iso3 ?S) [1 ..< Suc (length ?S)]) = [1 ..< Suc (length ?S)]"
    by (rule map_snd_zip) (simp only: length_map l)
  then have 3: "map snd ?m = [1 ..< Suc (length (rank_subset ?rows y b))]"
    using z n by simp
  have 4: "\<forall>e. map_get ?m e \<noteq> None \<longleftrightarrow> e \<in> iso3 ` set (rank_subset ?rows y b)"
  proof
    fix e
    have "map_of ?m e = None \<longleftrightarrow> e \<notin> set (map iso3 ?S)"
      unfolding z by (rule map_of_zip_is_None) (simp only: length_map l)
    moreover have "set (map iso3 ?S) = iso3 ` set (rank_subset ?rows y b)"
      by (simp add: rank_sorted_def set_js_sort)
    ultimately show "map_get ?m e \<noteq> None \<longleftrightarrow> e \<in> iso3 ` set (rank_subset ?rows y b)"
      by (simp add: map_get_def)
  qed
  have 5: "(\<forall>d\<in>set (rank_subset ?rows y b). finite_pct d) \<longrightarrow>
        (\<forall>a\<in>set (rank_subset ?rows y b). \<forall>c\<in>set (rank_subset ?rows y b).
           pct_val c < pct_val a \<or> (pct_val a = pct_val c \<and> precedes ?rows a c) \<longrightarrow>
           (\<exists>ra rc. map_get ?m (iso3 a) = Some ra \<and> map_get ?m (iso3 c) = Some rc \<and> ra < rc))"
    using rank_order [OF assms(1)] by blast
  from 1 2 3 4 5 show ?thesis by blast
qed


text \<open>
  C2. For every (year, buffer) pair of the fixed cross product, when the triple (entity,
  year, buffer) is a unique key of the country rows, the rank index holds a map for the
  pair whose ranks are exactly 1..N in order, without gap or duplicate, N being the number
  of country rows at the pair with a non-null percentage; an entity has a rank exactly
  when it has such a row, so an entity without a non-null percentage at the pair has
  none; and, the percentages at the pair being finite, a row with a larger percentage, or
  with the same percentage and an earlier place in the input, gets the smaller rank.
\<close>

theorem rankIndex_ranks:
  assumes "distinct (map row_key (countryRows (loadData raw)))"
    and "y \<in> set years" and "b \<in> set buffers"
  shows "\<exists>m. map_get (rankByYearBuffer (loadData raw)) (keyYearBuffer y b) = Some m
    \<and> map_size m
        = length (filter (\<lambda>d. year d = y \<and> buffer_km d = b \<and> pct_near d \<noteq> None)
            (countryRows (loadData raw)))
    \<and> map snd m
        = [1 ..< Suc (length (filter (\<lambda>d. year d = y \<and> buffer_km d = b \<and> pct_near d \<noteq> None)
            (countryRows (loadData raw))))]
    \<and> (\<forall>e. map_get m e \<noteq> None \<longleftrightarrow>
          (\<exists>d\<in>set (countryRows (loadData raw)).
             iso3 d = e \<and> year d = y \<and> buffer_km d = b \<and> pct_near d \<noteq> None))
    \<and> ((\<forall>d\<in>set (countryRows (loadData raw)).
           year d = y \<and> buffer_km d = b \<and> pct_near d \<noteq> None \<longrightarrow> (\<exists>p. pct_near d = Some (Fin p))) \<longrightarrow>
        (\<forall>a\<in>set (countryRows (loadData raw)). \<forall>c\<in>set (countryRows (loadData raw)). \<forall>pa pc.
           year a = y \<and> buffer_km a = b \<and> pct_near a = Some (Fin pa)
           \<and> year c = y \<and> buffer_km c = b \<and> pct_near c = Some (Fin pc)
           \<and> (pc < pa \<or> (pa = pc \<and> precedes (countryRows (loadData raw)) a c)) \<longrightarrow>
           (\<exists>ra rc. map_get m (iso3 a) = Some ra \<and> map_get m (iso3 c) = Some rc \<and> ra < rc)))"
proof -
  let ?P = "\<lambda>d. year d = y \<and> buffer_km d = b \<and> pct_near d \<noteq> None"
  let ?rows = "countryRows (loadData raw)"
  have cr: "?rows = filterBuffers raw" by (simp add: loadData_def Let_def)
  have rs: "rank_subset (filterBuffers raw) y b = filter ?P ?rows"
    by (simp add: rank_subset_def cr)
  from assms(1) have uniq: "distinct (map row_key (filterBuffers raw))" by (simp only: cr)
  from rank_map_ranks [OF uniq assms(2,3)] obtain m where
    1: "map_get (rankByYearBuffer (loadData raw)) (keyYearBuffer y b) = Some m"
    and 2: "map_size m = length (filter ?P ?rows)"
    and 3: "map snd m = [1 ..< Suc (length (filter ?P ?rows))]"
    and 4: "\<forall>e. map_get m e \<noteq> None \<longleftrightarrow> e \<in> iso3 ` set (filter ?P ?rows)"
    and 5: "(\<forall>d\<in>set (filter ?P ?rows). finite_pct d) \<longrightarrow>
        (\<forall>a\<in>set (filter ?P ?rows). \<forall>c\<in>set (filter ?P ?rows).
           pct_val c < pct_val a \<or> (pct_val a = pct_val c \<and> precedes (filterBuffers raw) a c) \<longrightarrow>
           (\<exists>ra rc. map_get m (iso3 a) = Some ra \<and> map_get m (iso3 c) = Some rc \<and> ra < rc))"
    unfolding rs by blast
  have i4: "\<forall>e. map_get m e \<noteq> None \<longleftrightarrow> (\<exists>d\<in>set ?rows. iso3 d = e \<and> ?P d)"
  proof
    fix e
    have "e \<in> iso3 ` set (filter ?P ?rows) \<longleftrightarrow> (\<exists>d\<in>set ?rows. iso3 d = e \<and> ?P d)" by auto
    with 4 show "map_get m e \<noteq> None \<longleftrightarrow> (\<exists>d\<in>set ?rows. iso3 d = e \<and> ?P d)" by simp
  qed
  have i5: "(\<forall>d\<in>set ?rows. ?P d \<longrightarrow> (\<exists>p. pct_near d = Some (Fin p))) \<longrightarrow>
        (\<forall>a\<in>set ?rows. \<forall>c\<in>set ?rows. \<forall>pa pc.
           year a = y \<and> buffer_km a = b \<and> pct_near a = Some (Fin pa)
           \<and> year c = y \<and> buffer_km c = b \<and> pct_near c = Some (Fin pc)
           \<and> (pc < pa \<or> (pa = pc \<and> precedes ?rows a c)) \<longrightarrow>
           (\<exists>ra rc. map_get m (iso3 a) = Some ra \<and> map_get m (iso3 c) = Some rc \<and> ra < rc))"
  proof (intro impI ballI allI)
    fix a c pa pc
    assume fin: "\<forall>d\<in>set ?rows. ?P d \<longrightarrow> (\<exists>p. pct_near d = Some (Fin p))"
      and a: "a \<in> set ?rows" and c: "c \<in> set ?rows"
      and h: "year a = y \<and> buffer_km a = b \<and> pct_near a = Some (Fin pa)
           \<and> year c = y \<and> buffer_km c = b \<and> pct_near c = Some (Fin pc)
           \<and> (pc < pa \<or> (pa = pc \<and> precedes ?rows a c))"
    have f: "\<forall>d\<in>set (filter ?P ?rows). finite_pct d"
    proof
      fix d
      assume "d \<in> set (filter ?P ?rows)"
      with fin obtain p where "pct_near d = Some (Fin p)" by auto
      then show "finite_pct d" by (simp add: finite_pct_def)
    qed
    from a h have a': "a \<in> set (filter ?P ?rows)" and pa: "pct_val a = pa"
      by (simp_all add: pct_val_def)
    from c h have c': "c \<in> set (filter ?P ?rows)" and pc: "pct_val c = pc"
      by (simp_all add: pct_val_def)
    from h pa pc have "pct_val c < pct_val a \<or> (pct_val a = pct_val c \<and> precedes (filterBuffers raw) a c)"
      by (simp add: cr)
    with 5 f a' c'
    show "\<exists>ra rc. map_get m (iso3 a) = Some ra \<and> map_get m (iso3 c) = Some rc \<and> ra < rc"
      by blast
  qed
  from 1 2 3 i4 i5 show ?thesis by blast
qed

lemma countryRows_rank_rows:
  "countryRows (loadData rank_rows) =
     [mk_row ''FRA'' 2010 30 (Some (Fin 5)) (Some (Fin 150)),
      mk_row ''DEU'' 2010 30 (Some (Fin 5)) (Some (Fin 70)),
      mk_row ''NLD'' 2010 30 None (Some (Fin 40)),
      mk_row ''JPN'' 2010 30 (Some (Fin 9)) (Some (Fin 90)),
      mk_row ''FRA'' 2000 30 (Some (Fin 3)) (Some (Fin 100))]"
  by (simp add: loadData_def Let_def filterBuffers_def rank_rows_def buffers_def mk_row_def)

lemma rank_in_range:
  assumes "map_get m k = Some r" "map snd m = [1, 2, 3::nat]"
  shows "r = 1 \<or> r = 2 \<or> r = 3"
proof -
  from assms(1) have "(k, r) \<in> set m" by (simp add: map_get_def map_of_SomeD)
  then have "r \<in> set (map snd m)" by force
  with assms(2) show ?thesis by simp
qed

theorem rankIndex_ranks_witness:
  "distinct (map row_key (countryRows (loadData rank_rows)))
   \<and> (2010::int) \<in> set years \<and> (30::int) \<in> set buffers
   \<and> length (filter (\<lambda>d. year d = 2010 \<and> buffer_km d = 30 \<and> pct_near d \<noteq> None)
        (countryRows (loadData rank_rows))) = 3
   \<and> (\<exists>m. map_get (rankByYearBuffer (loadData rank_rows)) (keyYearBuffer 2010 30) = Some m
        \<and> map_size m = 3 \<and> map snd m = [1, 2, 3]
        \<and> map_get m ''JPN'' = Some 1 \<and> map_get m ''FRA'' = Some 2 \<and> map_get m ''DEU'' = Some 3
        \<and> map_get m ''NLD'' = None \<and> map_get m ''USA'' = None)"
proof -
  let ?rows = "countryRows (loadData rank_rows)"
  let ?P = "\<lambda>d. year d = 2010 \<and> buffer_km d = 30 \<and> pct_near d \<noteq> None"
  let ?f = "mk_row ''FRA'' 2010 30 (Some (Fin 5)) (Some (Fin 150))"
  let ?d = "mk_row ''DEU'' 2010 30 (Some (Fin 5)) (Some (Fin 70))"
  let ?j = "mk_row ''JPN'' 2010 30 (Some (Fin 9)) (Some (Fin 90))"
  have d: "distinct (map row_key ?rows)"
    by (simp add: countryRows_rank_rows row_key_def mk_row_def)
  have y: "(2010::int) \<in> set years" by (simp add: years_def)
  have b: "(30::int) \<in> set buffers" by (simp add: buffers_def)
  have n: "length (filter ?P ?rows) = 3" by (simp add: countryRows_rank_rows mk_row_def)
  have fin: "\<forall>d\<in>set ?rows. year d = 2010 \<and> buffer_km d = 30 \<and> pct_near d \<noteq> None \<longrightarrow>
      (\<exists>p. pct_near d = Some (Fin p))"
    by (simp add: countryRows_rank_rows mk_row_def)
  have mem: "?f \<in> set ?rows" "?d \<in> set ?rows" "?j \<in> set ?rows"
    by (simp_all add: countryRows_rank_rows)
  have pr: "precedes ?rows ?f ?d" by (simp add: countryRows_rank_rows mk_row_def)
  from rankIndex_ranks [OF d y b] obtain m where
    1: "map_get (rankByYearBuffer (loadData rank_rows)) (keyYearBuffer 2010 30) = Some m"
    and 2: "map_size m = length (filter ?P ?rows)"
    and 3: "map snd m = [1 ..< Suc (length (filter ?P ?rows))]"
    and 4: "\<forall>e. map_get m e \<noteq> None \<longleftrightarrow> (\<exists>d\<in>set ?rows. iso3 d = e \<and> ?P d)"
    and 5: "(\<forall>d\<in>set ?rows. ?P d \<longrightarrow> (\<exists>p. pct_near d = Some (Fin p))) \<longrightarrow>
        (\<forall>a\<in>set ?rows. \<forall>c\<in>set ?rows. \<forall>pa pc.
           year a = 2010 \<and> buffer_km a = 30 \<and> pct_near a = Some (Fin pa)
           \<and> year c = 2010 \<and> buffer_km c = 30 \<and> pct_near c = Some (Fin pc)
           \<and> (pc < pa \<or> (pa = pc \<and> precedes ?rows a c)) \<longrightarrow>
           (\<exists>ra rc. map_get m (iso3 a) = Some ra \<and> map_get m (iso3 c) = Some rc \<and> ra < rc))"
    by blast
  from 2 n have s: "map_size m = 3" by simp
  have u: "[1 ..< Suc 3] = [1, 2, 3::nat]" by (simp add: upt_rec)
  from 3 have "map snd m = [1 ..< Suc 3]" by (simp only: n)
  then have r: "map snd m = [1, 2, 3]" by (simp only: u)
  from 4 have "map_get m ''NLD'' \<noteq> None \<longleftrightarrow> (\<exists>d\<in>set ?rows. iso3 d = ''NLD'' \<and> ?P d)" by (rule spec)
  then have nld: "map_get m ''NLD'' = None" by (simp add: countryRows_rank_rows mk_row_def)
  from 4 have "map_get m ''USA'' \<noteq> None \<longleftrightarrow> (\<exists>d\<in>set ?rows. iso3 d = ''USA'' \<and> ?P d)" by (rule spec)
  then have usa: "map_get m ''USA'' = None" by (simp add: countryRows_rank_rows mk_row_def)
  from 5 fin have ord: "\<forall>a\<in>set ?rows. \<forall>c\<in>set ?rows. \<forall>pa pc.
           year a = 2010 \<and> buffer_km a = 30 \<and> pct_near a = Some (Fin pa)
           \<and> year c = 2010 \<and> buffer_km c = 30 \<and> pct_near c = Some (Fin pc)
           \<and> (pc < pa \<or> (pa = pc \<and> precedes ?rows a c)) \<longrightarrow>
           (\<exists>ra rc. map_get m (iso3 a) = Some ra \<and> map_get m (iso3 c) = Some rc \<and> ra < rc)"
    by blast
  have "year ?j = 2010 \<and> buffer_km ?j = 30 \<and> pct_near ?j = Some (Fin 9)
      \<and> year ?f = 2010 \<and> buffer_km ?f = 30 \<and> pct_near ?f = Some (Fin 5)
      \<and> ((5::real) < 9 \<or> ((9::real) = 5 \<and> precedes ?rows ?j ?f))"
    by (simp add: mk_row_def)
  with ord mem have "\<exists>ra rc. map_get m (iso3 ?j) = Some ra \<and> map_get m (iso3 ?f) = Some rc \<and> ra < rc"
    by blast
  then obtain rj rf where j: "map_get m ''JPN'' = Some rj" and f: "map_get m ''FRA'' = Some rf"
    and jf: "rj < rf" by (auto simp: mk_row_def)
  have "year ?f = 2010 \<and> buffer_km ?f = 30 \<and> pct_near ?f = Some (Fin 5)
      \<and> year ?d = 2010 \<and> buffer_km ?d = 30 \<and> pct_near ?d = Some (Fin 5)
      \<and> ((5::real) < 5 \<or> ((5::real) = 5 \<and> precedes ?rows ?f ?d))"
    using pr by (simp add: mk_row_def)
  with ord mem have "\<exists>ra rc. map_get m (iso3 ?f) = Some ra \<and> map_get m (iso3 ?d) = Some rc \<and> ra < rc"
    by blast
  then obtain rf' rd where f': "map_get m ''FRA'' = Some rf'" and dd: "map_get m ''DEU'' = Some rd"
    and fd: "rf' < rd" by (auto simp: mk_row_def)
  from f f' have "rf' = rf" by simp
  with fd have fd': "rf < rd" by simp
  from rank_in_range [OF j r] rank_in_range [OF f r] rank_in_range [OF dd r] jf fd'
  have "rj = 1 \<and> rf = 2 \<and> rd = 3" by arith
  with j f dd have v: "map_get m ''JPN'' = Some 1" "map_get m ''FRA'' = Some 2" "map_get m ''DEU'' = Some 3"
    by simp_all
  from 1 s r v nld usa
  have "\<exists>m. map_get (rankByYearBuffer (loadData rank_rows)) (keyYearBuffer 2010 30) = Some m
        \<and> map_size m = 3 \<and> map snd m = [1, 2, 3]
        \<and> map_get m ''JPN'' = Some 1 \<and> map_get m ''FRA'' = Some 2 \<and> map_get m ''DEU'' = Some 3
        \<and> map_get m ''NLD'' = None \<and> map_get m ''USA'' = None"
    by (intro exI [of _ m]) (simp only: simp_thms)
  with d y b n show ?thesis by (simp only: simp_thms)
qed

subsection \<open>The decade change\<close>

lemma delta_step_event: "delta_step i b prev r st = apply_event (step_event i b prev r) st"
  by (cases st; cases prev)
    (simp_all add: delta_step_def apply_event_def step_event_def Let_def split: option.splits)

lemma walk_fold: "walk i b prev rs st = fold apply_event (walk_events i b prev rs) st"
  by (induction rs arbitrary: prev st) (simp_all add: delta_step_event)

lemma foldl_fold_concat:
  "foldl (\<lambda>st x. fold f (g x) st) st xs = fold f (concat (map g xs)) st"
  by (induction xs arbitrary: st) simp_all

lemma group_events_fold:
  "foldl (\<lambda>st pa. walk (fst p) (fst pa) None (sort_by_year (snd pa)) st) st (snd p)
     = fold apply_event (group_events p) st"
proof -
  have "foldl (\<lambda>st pa. walk (fst p) (fst pa) None (sort_by_year (snd pa)) st) st (snd p)
      = foldl (\<lambda>st x. fold apply_event (walk_events (fst p) (fst x) None (sort_by_year (snd x))) st)
          st (snd p)"
    by (simp add: walk_fold)
  also have "\<dots> = fold apply_event
      (concat (map (\<lambda>x. walk_events (fst p) (fst x) None (sort_by_year (snd x))) (snd p))) st"
    by (rule foldl_fold_concat)
  finally show ?thesis by (simp add: group_events_def case_prod_unfold)
qed

lemma compute_deltas_fold: "compute_deltas rows = fold apply_event (all_events rows) ([], [])"
proof -
  have "compute_deltas rows
      = foldl (\<lambda>st x. fold apply_event (group_events x) st) ([], []) (d3_group2 iso3 buffer_km rows)"
    unfolding compute_deltas_def by (simp add: group_events_fold case_prod_unfold)
  then show ?thesis by (simp add: foldl_fold_concat all_events_def)
qed

lemma clip_delta_good: "good_delta (clip_delta d)"
  by (cases d) (simp_all add: clip_delta_def good_delta_def)

lemma fst_apply_event: "fst (apply_event e st) = map_set (fst e) (snd (snd e)) (fst st)"
  by (cases e; cases st) (simp add: apply_event_def split: option.splits)

lemma snd_apply_event: "snd (apply_event e st) = max_event e (snd st)"
  by (cases e; cases st) (simp add: apply_event_def max_event_def split: option.splits)

lemma fst_fold_apply_event:
  "fst (fold apply_event evs st) = foldl (\<lambda>m e. map_set (fst e) (snd (snd e)) m) (fst st) evs"
  by (induction evs arbitrary: st) (simp_all add: fst_apply_event)

lemma snd_fold_apply_event: "snd (fold apply_event evs st) = fold max_event evs (snd st)"
  by (induction evs arbitrary: st) (simp_all add: snd_apply_event)

lemma pos_map_lookup: "pos_map mm \<Longrightarrow> map_of mm b = Some v \<Longrightarrow> \<exists>x. v = Fin x \<and> 0 < x"
  by (auto simp: pos_map_def dest!: map_of_SomeD)

lemma old_max_pos:
  assumes "pos_map mm"
  shows "(map_of mm b = None \<and> old_max mm b = Fin 0)
       \<or> (\<exists>x. map_of mm b = Some (Fin x) \<and> old_max mm b = Fin x \<and> 0 < x)"
proof (cases "map_of mm b")
  case None
  then show ?thesis by (simp add: old_max_def map_get_def)
next
  case (Some v)
  with pos_map_lookup [OF assms Some] show ?thesis by (auto simp: old_max_def map_get_def)
qed

lemma set_alist_update: "set (AList.update k v m) \<subseteq> insert (k, v) (set m)"
  by (induction m) auto

lemma pos_map_set:
  assumes "pos_map mm" "0 < x"
  shows "pos_map (map_set b (Fin x) mm)"
  unfolding pos_map_def map_set_def
proof (rule ballI)
  fix p
  assume "p \<in> set (AList.update b (Fin x) mm)"
  moreover have "set (AList.update b (Fin x) mm) \<subseteq> insert (b, Fin x) (set mm)"
    by (rule set_alist_update)
  ultimately have "p = (b, Fin x) \<or> p \<in> set mm" by auto
  then show "\<exists>x. snd p = Fin x \<and> 0 < x" using assms by (auto simp: pos_map_def)
qed

lemma pos_map_max_event:
  assumes "pos_map mm" "good_delta (snd (snd e))"
  shows "pos_map (max_event e mm)"
proof (cases e)
  case (fields k b d)
  show ?thesis
  proof (cases d)
    case None
    with fields assms show ?thesis by (simp add: max_event_def)
  next
    case (Some v)
    with fields assms(2) obtain x where v: "v = Fin x" and x: "0 \<le> x"
      by (cases v) (simp_all add: good_delta_def)
    from old_max_pos [OF assms(1), of b] have "js_gt v (old_max mm b) \<Longrightarrow> 0 < x"
      using v by (auto simp: js_gt_def)
    with fields Some v assms(1) show ?thesis by (auto simp: max_event_def pos_map_set)
  qed
qed

lemma pos_map_fold:
  "pos_map mm \<Longrightarrow> \<forall>e\<in>set evs. good_delta (snd (snd e)) \<Longrightarrow> pos_map (fold max_event evs mm)"
  by (induction evs arbitrary: mm) (simp_all add: pos_map_max_event)

lemma max_event_cases:
  assumes "pos_map mm" "good_delta (snd (snd e))"
  shows "max_event e mm = mm
      \<or> (\<exists>k b x. e = (k, b, Some (Fin x)) \<and> 0 < x \<and> max_event e mm = map_set b (Fin x) mm
          \<and> (map_of mm b = None \<or> (\<exists>m. map_of mm b = Some (Fin m) \<and> m < x)))"
proof (cases e)
  case (fields k b d)
  show ?thesis
  proof (cases d)
    case None
    with fields show ?thesis by (simp add: max_event_def)
  next
    case (Some v)
    with fields assms(2) obtain x where v: "v = Fin x" and x: "0 \<le> x"
      by (cases v) (simp_all add: good_delta_def)
    show ?thesis
    proof (cases "js_gt v (old_max mm b)")
      case False
      with fields Some show ?thesis by (simp add: max_event_def)
    next
      case True
      with old_max_pos [OF assms(1), of b] v
      have "0 < x \<and> (map_of mm b = None \<or> (\<exists>m. map_of mm b = Some (Fin m) \<and> m < x))"
        by (auto simp: js_gt_def)
      with True fields Some v show ?thesis by (simp add: max_event_def)
    qed
  qed
qed

lemma max_event_mono:
  assumes "pos_map mm" "good_delta (snd (snd e))" "map_of mm b = Some (Fin M)"
  shows "\<exists>M'. map_of (max_event e mm) b = Some (Fin M') \<and> M \<le> M'"
  using max_event_cases [OF assms(1,2)] assms(3)
  by (auto simp: map_set_def update_conv')

lemma max_fold_mono:
  "pos_map mm \<Longrightarrow> \<forall>e\<in>set evs. good_delta (snd (snd e)) \<Longrightarrow> map_of mm b = Some (Fin M) \<Longrightarrow>
   \<exists>M'. map_of (fold max_event evs mm) b = Some (Fin M') \<and> M \<le> M'"
proof (induction evs arbitrary: mm M)
  case Nil
  then show ?case by simp
next
  case (Cons e evs)
  from Cons.prems have g: "good_delta (snd (snd e))" by simp
  from max_event_mono [OF Cons.prems(1) g Cons.prems(3)]
  obtain M1 where 1: "map_of (max_event e mm) b = Some (Fin M1)" and le: "M \<le> M1" by blast
  from Cons.IH [OF pos_map_max_event [OF Cons.prems(1) g] _ 1] Cons.prems(2)
  obtain M' where "map_of (fold max_event evs (max_event e mm)) b = Some (Fin M')" "M1 \<le> M'"
    by auto
  with le show ?case by auto
qed

lemma max_event_hit:
  assumes "pos_map mm" "0 < x"
  shows "\<exists>M. map_of (max_event (k, b, Some (Fin x)) mm) b = Some (Fin M) \<and> x \<le> M"
proof -
  from old_max_pos [OF assms(1), of b] assms(2) show ?thesis
    by (auto simp: max_event_def js_gt_def map_set_def update_conv')
qed

lemma max_fold_upper:
  "pos_map mm \<Longrightarrow> \<forall>e\<in>set evs. good_delta (snd (snd e)) \<Longrightarrow>
   (k, b, Some (Fin x)) \<in> set evs \<Longrightarrow> 0 < x \<Longrightarrow>
   \<exists>M. map_of (fold max_event evs mm) b = Some (Fin M) \<and> x \<le> M"
proof (induction evs arbitrary: mm)
  case Nil
  then show ?case by simp
next
  case (Cons e evs)
  from Cons.prems have g: "good_delta (snd (snd e))" and gs: "\<forall>e\<in>set evs. good_delta (snd (snd e))"
    by simp_all
  have p: "pos_map (max_event e mm)" by (rule pos_map_max_event [OF Cons.prems(1) g])
  show ?case
  proof (cases "e = (k, b, Some (Fin x))")
    case True
    from max_event_hit [OF Cons.prems(1,4), of k b] True
    obtain M where "map_of (max_event e mm) b = Some (Fin M)" and le: "x \<le> M" by auto
    from max_fold_mono [OF p gs this(1)] le show ?thesis by auto
  next
    case False
    with Cons.prems(3) have "(k, b, Some (Fin x)) \<in> set evs" by simp
    from Cons.IH [OF p gs this Cons.prems(4)] show ?thesis by simp
  qed
qed

lemma max_fold_attained:
  "pos_map mm \<Longrightarrow> \<forall>e\<in>set evs. good_delta (snd (snd e)) \<Longrightarrow>
   map_of (fold max_event evs mm) b = Some v \<Longrightarrow>
   map_of mm b = Some v \<or> (\<exists>k x. (k, b, Some (Fin x)) \<in> set evs \<and> v = Fin x \<and> 0 < x)"
proof (induction evs arbitrary: mm)
  case Nil
  then show ?case by simp
next
  case (Cons e evs)
  from Cons.prems have g: "good_delta (snd (snd e))" and gs: "\<forall>e\<in>set evs. good_delta (snd (snd e))"
    by simp_all
  have p: "pos_map (max_event e mm)" by (rule pos_map_max_event [OF Cons.prems(1) g])
  from Cons.prems(3) have "map_of (fold max_event evs (max_event e mm)) b = Some v" by simp
  from Cons.IH [OF p gs this]
  consider (now) "map_of (max_event e mm) b = Some v"
    | (later) "\<exists>k x. (k, b, Some (Fin x)) \<in> set evs \<and> v = Fin x \<and> 0 < x" by blast
  then show ?case
  proof cases
    case now
    from max_event_cases [OF Cons.prems(1) g]
    consider (same) "max_event e mm = mm"
      | (upd) k b' x where "e = (k, b', Some (Fin x))" "0 < x"
          "max_event e mm = map_set b' (Fin x) mm" by blast
    then show ?thesis
    proof cases
      case same
      with now show ?thesis by simp
    next
      case upd
      show ?thesis
      proof (cases "b = b'")
        case True
        with now upd have "v = Fin x" by (simp add: map_set_def update_conv')
        with upd True show ?thesis by auto
      next
        case False
        with now upd have "map_of mm b = Some v" by (simp add: map_set_def update_conv')
        then show ?thesis by simp
      qed
    qed
  next
    case later
    then show ?thesis by auto
  qed
qed

lemma group_add_Nil: "group_add k x [] = [(k, [x])]"
  by (simp add: group_add_def map_get_def map_set_def)

lemma group_add_Cons:
  "group_add k x ((k', g) # m) = (if k' = k then (k, g @ [x]) # m else (k', g) # group_add k x m)"
  by (simp add: group_add_def map_get_def map_set_def split: option.splits)

lemma mset_group_add:
  "mset (concat (map snd (group_add k x m))) = add_mset x (mset (concat (map snd m)))"
proof (induction m)
  case Nil
  then show ?case by (simp add: group_add_Nil)
next
  case (Cons p m)
  then show ?case by (cases p) (simp add: group_add_Cons)
qed

lemma keys_group_add:
  "\<forall>p\<in>set m. \<forall>z\<in>set (snd p). key z = fst p \<Longrightarrow> key x = k \<Longrightarrow>
   \<forall>p\<in>set (group_add k x m). \<forall>z\<in>set (snd p). key z = fst p"
proof (induction m)
  case Nil
  then show ?case by (simp add: group_add_Nil)
next
  case (Cons p m)
  then show ?case by (cases p) (auto simp: group_add_Cons)
qed

lemma d3_group_snoc: "d3_group key (xs @ [x]) = group_add (key x) x (d3_group key xs)"
  by (simp add: d3_group_def)

lemma mset_d3_group: "mset (concat (map snd (d3_group key xs))) = mset xs"
proof (induction xs rule: rev_induct)
  case Nil
  then show ?case by (simp add: d3_group_def)
next
  case (snoc x xs)
  then show ?case by (simp add: d3_group_snoc mset_group_add)
qed

lemma keys_d3_group: "\<forall>p\<in>set (d3_group key xs). \<forall>z\<in>set (snd p). key z = fst p"
proof (induction xs rule: rev_induct)
  case Nil
  then show ?case by (simp add: d3_group_def)
next
  case (snoc x xs)
  then show ?case unfolding d3_group_snoc by (intro keys_group_add) simp_all
qed

lemma set_d3_group: "p \<in> set (d3_group key xs) \<Longrightarrow> set (snd p) \<subseteq> set xs"
proof -
  assume p: "p \<in> set (d3_group key xs)"
  have "set (snd p) \<subseteq> set (concat (map snd (d3_group key xs)))" using p by auto
  also have "\<dots> = set_mset (mset (concat (map snd (d3_group key xs))))" by simp
  also have "\<dots> = set xs" by (simp only: mset_d3_group set_mset_mset)
  finally show ?thesis .
qed

lemma mset_insort_cmp: "mset (insort_cmp cmp x ys) = add_mset x (mset ys)"
  by (induction ys) auto

lemma mset_js_sort: "mset (js_sort cmp xs) = mset xs"
  by (induction xs) (simp_all add: js_sort_def mset_insort_cmp)

lemma walk_events_keys:
  "map fst (walk_events i b prev rs) = map (\<lambda>r. keyExposure i (year r) b) rs"
  by (induction rs arbitrary: prev) (simp_all add: step_event_def)

lemma step_event_good: "good_delta (snd (snd (step_event i b prev r)))"
  by (cases prev) (simp_all add: step_event_def clip_delta_good, simp add: good_delta_def)

lemma walk_events_good: "\<forall>e\<in>set (walk_events i b prev rs). good_delta (snd (snd e))"
  by (induction rs arbitrary: prev) (simp_all add: step_event_good)

lemma walk_events_buffer: "\<forall>e\<in>set (walk_events i b prev rs). fst (snd e) = b \<and> (\<exists>y. fst e = keyExposure i y b)"
  by (induction rs arbitrary: prev) (auto simp: step_event_def)

lemma mset_concat_events:
  "\<forall>p\<in>set gs. mset (map fst (ev p)) = mset (map kf (snd p)) \<Longrightarrow>
   mset (map fst (concat (map ev gs))) = mset (map kf (concat (map snd gs)))"
  by (induction gs) simp_all

lemma group_events_keys:
  assumes "\<forall>z\<in>set g. iso3 z = i"
  shows "mset (map fst (group_events (i, d3_group buffer_km g))) = mset (map row_string_key g)"
proof -
  let ?ev = "\<lambda>p. walk_events i (fst p) None (sort_by_year (snd p))"
  have "\<forall>p\<in>set (d3_group buffer_km g). mset (map fst (?ev p)) = mset (map row_string_key (snd p))"
  proof
    fix p
    assume p: "p \<in> set (d3_group buffer_km g)"
    have k: "\<forall>z\<in>set (snd p). keyExposure i (year z) (fst p) = row_string_key z"
      using keys_d3_group [of buffer_km g] set_d3_group [OF p] p assms
      by (auto simp: row_string_key_def)
    have "mset (map fst (?ev p)) = mset (map (\<lambda>r. keyExposure i (year r) (fst p)) (sort_by_year (snd p)))"
      by (simp add: walk_events_keys)
    also have "\<dots> = image_mset (\<lambda>r. keyExposure i (year r) (fst p)) (mset (snd p))"
      by (simp add: sort_by_year_def mset_js_sort)
    also have "\<dots> = image_mset row_string_key (mset (snd p))"
      using k by (intro image_mset_cong) simp
    finally show "mset (map fst (?ev p)) = mset (map row_string_key (snd p))" by simp
  qed
  from mset_concat_events [of "d3_group buffer_km g" ?ev row_string_key, OF this]
  have "mset (map fst (concat (map ?ev (d3_group buffer_km g))))
      = mset (map row_string_key (concat (map snd (d3_group buffer_km g))))" .
  also have "\<dots> = image_mset row_string_key (mset (concat (map snd (d3_group buffer_km g))))"
    by simp
  also have "\<dots> = mset (map row_string_key g)" by (simp only: mset_d3_group mset_map)
  finally show ?thesis by (simp add: group_events_def case_prod_unfold)
qed

lemma all_events_keys: "mset (map fst (all_events rows)) = mset (map row_string_key rows)"
proof -
  let ?ev = "\<lambda>p. group_events (fst p, d3_group buffer_km (snd p))"
  have e: "all_events rows = concat (map ?ev (d3_group iso3 rows))"
    by (simp add: all_events_def d3_group2_def comp_def case_prod_unfold)
  have "\<forall>p\<in>set (d3_group iso3 rows). mset (map fst (?ev p)) = mset (map row_string_key (snd p))"
  proof
    fix p
    assume "p \<in> set (d3_group iso3 rows)"
    with keys_d3_group [of iso3 rows] have "\<forall>z\<in>set (snd p). iso3 z = fst p" by blast
    then show "mset (map fst (?ev p)) = mset (map row_string_key (snd p))"
      by (rule group_events_keys)
  qed
  from mset_concat_events [of "d3_group iso3 rows" ?ev row_string_key, OF this]
  have "mset (map fst (all_events rows))
      = mset (map row_string_key (concat (map snd (d3_group iso3 rows))))" by (simp only: e)
  also have "\<dots> = image_mset row_string_key (mset (concat (map snd (d3_group iso3 rows))))"
    by simp
  also have "\<dots> = mset (map row_string_key rows)" by (simp only: mset_d3_group mset_map)
  finally show ?thesis .
qed

lemma distinct_all_events:
  assumes "distinct (map row_key rows)"
  shows "distinct (map fst (all_events rows))"
proof -
  have "distinct (map row_string_key rows)"
    using distinct_keyExposure [OF assms] by (simp add: row_string_key_def [abs_def])
  then show ?thesis using all_events_keys [of rows] by (metis mset_eq_imp_distinct_iff)
qed

lemma group_events_good: "\<forall>e\<in>set (group_events g). good_delta (snd (snd e))"
proof (cases g)
  case (Pair i byBuffer)
  show ?thesis
  proof
    fix e
    assume "e \<in> set (group_events g)"
    with Pair obtain b rs where "e \<in> set (walk_events i b None (sort_by_year rs))"
      by (auto simp: group_events_def)
    with walk_events_good [of i b None "sort_by_year rs"]
    show "good_delta (snd (snd e))" by blast
  qed
qed

lemma all_events_good: "\<forall>e\<in>set (all_events rows). good_delta (snd (snd e))"
  using group_events_good by (auto simp: all_events_def)

lemma group_events_buffer: "\<forall>e\<in>set (group_events g). \<exists>i y. fst e = keyExposure i y (fst (snd e))"
proof (cases g)
  case (Pair i byBuffer)
  show ?thesis
  proof
    fix e
    assume "e \<in> set (group_events g)"
    with Pair obtain b rs where "e \<in> set (walk_events i b None (sort_by_year rs))"
      by (auto simp: group_events_def)
    with walk_events_buffer [of i b None "sort_by_year rs"]
    have "fst (snd e) = b \<and> (\<exists>y. fst e = keyExposure i y b)" by blast
    then show "\<exists>i y. fst e = keyExposure i y (fst (snd e))" by blast
  qed
qed

lemma all_events_buffer: "\<forall>e\<in>set (all_events rows). \<exists>i y. fst e = keyExposure i y (fst (snd e))"
  using group_events_buffer by (auto simp: all_events_def)

lemma index_of_event:
  assumes "distinct (map row_key rows)" and "(k, b, d) \<in> set (all_events rows)"
  shows "map_of (fst (compute_deltas rows)) k = Some d"
proof -
  let ?evs = "all_events rows"
  have "distinct (map fst (rev ?evs))"
    using distinct_all_events [OF assms(1)] by (simp add: rev_map [symmetric])
  from find_distinct_key [OF this, of "(k, b, d)"] assms(2)
  have "find (\<lambda>e. fst e = k) (rev ?evs) = Some (k, b, d)" by simp
  then show ?thesis
    by (simp add: compute_deltas_fold fst_fold_apply_event map_of_foldl_set)
qed

lemma find_SomeD: "find P xs = Some x \<Longrightarrow> x \<in> set xs \<and> P x"
  by (induction xs) (auto split: if_splits)

lemma event_of_index:
  assumes "map_of (fst (compute_deltas rows)) k = Some d"
  shows "\<exists>b. (k, b, d) \<in> set (all_events rows)"
proof -
  from assms obtain e where f: "find (\<lambda>e. fst e = k) (rev (all_events rows)) = Some e"
    and d: "snd (snd e) = d"
    by (auto simp: compute_deltas_fold fst_fold_apply_event map_of_foldl_set split: option.splits)
  from find_SomeD [OF f] have "e \<in> set (all_events rows)" "fst e = k" by simp_all
  with d have "(k, fst (snd e), d) \<in> set (all_events rows)" by (cases e) auto
  then show ?thesis ..
qed

lemma max_of_store: "maxDeltaByBuffer (loadData raw) = fold max_event (all_events (filterBuffers raw)) []"
  by (simp add: loadData_def Let_def compute_deltas_fold snd_fold_apply_event)

lemma deltaAt_store:
  "deltaAt (loadData raw) i y b = map_of (fst (compute_deltas (filterBuffers raw))) (keyExposure i y b)"
  by (simp add: deltaAt_def loadData_def Let_def map_get_def)

lemma max_entry_positive_delta:
  assumes uniq: "distinct (map row_key (filterBuffers raw))"
    and "map_get (maxDeltaByBuffer (loadData raw)) b = Some v"
  shows "\<exists>x. v = Fin x \<and> 0 < x \<and> (\<exists>i y. deltaAt (loadData raw) i y b = Some (Some (Fin x)))"
proof -
  let ?evs = "all_events (filterBuffers raw)"
  have "map_of (fold max_event ?evs []) b = Some v"
    using assms(2) by (simp add: map_get_def max_of_store)
  from max_fold_attained [OF _ all_events_good this]
  obtain k x where e: "(k, b, Some (Fin x)) \<in> set ?evs" and v: "v = Fin x" and x: "0 < x"
    by (auto simp: pos_map_def)
  from all_events_buffer e obtain i y where k: "k = keyExposure i y b" by fastforce
  from index_of_event [OF uniq e] k have "deltaAt (loadData raw) i y b = Some (Some (Fin x))"
    by (simp add: deltaAt_store)
  with v x show ?thesis by blast
qed

lemma positive_delta_bounded:
  assumes "deltaAt (loadData raw) i y b = Some (Some (Fin x))" and "0 < x"
  shows "\<exists>M. map_get (maxDeltaByBuffer (loadData raw)) b = Some (Fin M) \<and> x \<le> M"
proof -
  let ?evs = "all_events (filterBuffers raw)"
  from event_of_index assms(1) obtain b' where e: "(keyExposure i y b, b', Some (Fin x)) \<in> set ?evs"
    unfolding deltaAt_store by blast
  with all_events_buffer obtain i' y' where "keyExposure i y b = keyExposure i' y' b'" by fastforce
  then have "b' = b" by (auto dest: keyExposure_inj)
  with e have "(keyExposure i y b, b, Some (Fin x)) \<in> set ?evs" by simp
  from max_fold_upper [OF _ all_events_good this assms(2), of "[]"] show ?thesis
    by (simp add: pos_map_def map_get_def max_of_store)
qed

lemma max_entry_iff:
  assumes "distinct (map row_key (filterBuffers raw))"
  shows "map_get (maxDeltaByBuffer (loadData raw)) b \<noteq> None
    \<longleftrightarrow> (\<exists>i y x. deltaAt (loadData raw) i y b = Some (Some (Fin x)) \<and> 0 < x)"
proof
  assume "map_get (maxDeltaByBuffer (loadData raw)) b \<noteq> None"
  then obtain v where "map_get (maxDeltaByBuffer (loadData raw)) b = Some v" by auto
  from max_entry_positive_delta [OF assms this]
  show "\<exists>i y x. deltaAt (loadData raw) i y b = Some (Some (Fin x)) \<and> 0 < x" by blast
next
  assume "\<exists>i y x. deltaAt (loadData raw) i y b = Some (Some (Fin x)) \<and> 0 < x"
  then obtain i y x where "deltaAt (loadData raw) i y b = Some (Some (Fin x))" "0 < x" by blast
  from positive_delta_bounded [OF this]
  show "map_get (maxDeltaByBuffer (loadData raw)) b \<noteq> None" by auto
qed

lemma delta_never_negative:
  assumes "deltaAt (loadData raw) i y b = Some (Some v)"
  shows "\<exists>x. v = Fin x \<and> 0 \<le> x"
proof -
  from event_of_index assms obtain b' where
    "(keyExposure i y b, b', Some v) \<in> set (all_events (filterBuffers raw))"
    unfolding deltaAt_store by blast
  with all_events_good have "good_delta (Some v)" by fastforce
  then show ?thesis by (cases v) (simp_all add: good_delta_def)
qed

text \<open>
  C10. After the delta computation, with unique (entity, year, buffer) keys,
  \<open>maxDeltaByBuffer\<close> has an entry for a buffer exactly when the delta index holds a
  strictly positive delta at that buffer, and every stored value is strictly positive and
  is one of these deltas: a delta of zero or \<open>null\<close> never makes an entry.
\<close>

theorem maxDeltaByBuffer_entries:
  assumes "distinct (map row_key (filterBuffers raw))"
  shows "(map_get (maxDeltaByBuffer (loadData raw)) b \<noteq> None
          \<longleftrightarrow> (\<exists>i y x. deltaAt (loadData raw) i y b = Some (Some (Fin x)) \<and> 0 < x))
    \<and> (\<forall>v. map_get (maxDeltaByBuffer (loadData raw)) b = Some v \<longrightarrow>
          (\<exists>x. v = Fin x \<and> 0 < x \<and> (\<exists>i y. deltaAt (loadData raw) i y b = Some (Some (Fin x)))))"
  using max_entry_iff [OF assms, of b] max_entry_positive_delta [OF assms, of b] by blast

lemma finite_delta_values: "finite {x. \<exists>i y. deltaAt (loadData raw) i y b = Some (Some (Fin x))}"
proof -
  let ?evs = "all_events (filterBuffers raw)"
  let ?val = "\<lambda>e::event. case snd (snd e) of Some (Fin x) \<Rightarrow> x | _ \<Rightarrow> 0"
  have "{x. \<exists>i y. deltaAt (loadData raw) i y b = Some (Some (Fin x))} \<subseteq> ?val ` set ?evs"
  proof
    fix x
    assume "x \<in> {x. \<exists>i y. deltaAt (loadData raw) i y b = Some (Some (Fin x))}"
    then obtain i y where "deltaAt (loadData raw) i y b = Some (Some (Fin x))" by blast
    with event_of_index obtain b' where "(keyExposure i y b, b', Some (Fin x)) \<in> set ?evs"
      unfolding deltaAt_store by blast
    then have "?val (keyExposure i y b, b', Some (Fin x)) \<in> ?val ` set ?evs" by (rule imageI)
    then show "x \<in> ?val ` set ?evs" by simp
  qed
  then show ?thesis by (rule finite_subset) simp
qed

text \<open>
  C4. With unique (entity, year, buffer) keys, the normalisation bound
  \<open>maxDeltaByBuffer.get(buffer) || 1\<close> is the maximum over all entities and years of the
  deltas stored at that buffer when one of them is strictly positive, and \<open>1\<close> when none
  is.
\<close>

theorem maxPositiveDelta_is_max:
  assumes "distinct (map row_key (filterBuffers raw))"
  shows "((\<exists>i y x. deltaAt (loadData raw) i y b = Some (Some (Fin x)) \<and> 0 < x) \<longrightarrow>
            maxDeltaPeople (loadData raw) b
              = Fin (Max {x. \<exists>i y. deltaAt (loadData raw) i y b = Some (Some (Fin x))}))
    \<and> (\<not> (\<exists>i y x. deltaAt (loadData raw) i y b = Some (Some (Fin x)) \<and> 0 < x) \<longrightarrow>
            maxDeltaPeople (loadData raw) b = Fin 1)"
proof (intro conjI impI)
  let ?D = "{x. \<exists>i y. deltaAt (loadData raw) i y b = Some (Some (Fin x))}"
  assume "\<exists>i y x. deltaAt (loadData raw) i y b = Some (Some (Fin x)) \<and> 0 < x"
  then obtain i y x where "deltaAt (loadData raw) i y b = Some (Some (Fin x))" "0 < x" by blast
  from positive_delta_bounded [OF this]
  obtain M where M: "map_get (maxDeltaByBuffer (loadData raw)) b = Some (Fin M)" by blast
  from max_entry_positive_delta [OF assms M] have pos: "0 < M" and inD: "M \<in> ?D" by auto
  have "\<forall>z\<in>?D. z \<le> M"
  proof
    fix z
    assume "z \<in> ?D"
    then obtain i y where z: "deltaAt (loadData raw) i y b = Some (Some (Fin z))" by blast
    show "z \<le> M"
    proof (cases "0 < z")
      case True
      from positive_delta_bounded [OF z True] M show ?thesis by simp
    next
      case False
      with pos show ?thesis by simp
    qed
  qed
  with inD finite_delta_values [of raw b] have "Max ?D = M" by (intro Max_eqI) auto
  with M pos show "maxDeltaPeople (loadData raw) b = Fin (Max ?D)"
    by (simp add: maxDeltaPeople_def)
next
  assume "\<not> (\<exists>i y x. deltaAt (loadData raw) i y b = Some (Some (Fin x)) \<and> 0 < x)"
  with max_entry_iff [OF assms, of b]
  have "map_get (maxDeltaByBuffer (loadData raw)) b = None" by blast
  then show "maxDeltaPeople (loadData raw) b = Fin 1" by (simp add: maxDeltaPeople_def)
qed

subsection \<open>Rounding of the subtraction\<close>

lemma round_even_int: "round_even (of_int n) = n"
  by (simp add: round_even_def)

lemma round_double_at:
  assumes "x \<noteq> 0" and "\<lfloor>log 2 \<bar>x\<bar>\<rfloor> = e" and "- 1022 \<le> e"
    and "round_even (x / 2 powi (e - 52)) = n"
  shows "round_double x =
     (if (2::real) ^ 1024 \<le> \<bar>of_int n * 2 powi (e - 52)\<bar> then (if 0 < x then PInf else NInf)
      else Fin (of_int n * 2 powi (e - 52)))"
proof -
  have m: "max \<lfloor>log 2 \<bar>x\<bar>\<rfloor> (- 1022) = e" using assms(2,3) by simp
  from assms(1) show ?thesis
    unfolding round_double_def m Let_def assms(4) by (simp only: if_False)
qed

text \<open>A number that is a double is the result of rounding it.\<close>

lemma round_double_exact:
  assumes "x \<noteq> 0" and "\<lfloor>log 2 \<bar>x\<bar>\<rfloor> = e" and "- 1022 \<le> e"
    and "x = of_int n * 2 powi (e - 52)" and "\<bar>x\<bar> < 2 ^ 1024"
  shows "round_double x = Fin x"
proof -
  let ?u = "(2::real) powi (e - 52)"
  have u: "?u \<noteq> 0" by simp
  from assms(4) u have "x / ?u = of_int n" by simp
  then have "round_even (x / ?u) = n" by (simp only: round_even_int)
  from round_double_at [OF assms(1-3) this] assms(4,5) show ?thesis by simp
qed

lemma floor_log2_50: "\<lfloor>log 2 \<bar>50::real\<bar>\<rfloor> = 5"
proof -
  have "\<lfloor>log 2 (50::real)\<rfloor> = 5"
    by (subst floor_log_eq_powr_iff) (simp_all add: powr_realpow)
  then show ?thesis by simp
qed

lemma round_double_50: "round_double 50 = Fin 50"
proof (rule round_double_exact [where e = 5 and n = "50 * 2 ^ 47"])
  show "\<lfloor>log 2 \<bar>50::real\<bar>\<rfloor> = 5" by (rule floor_log2_50)
  show "(50::real) = of_int (50 * 2 ^ 47) * 2 powi (5 - 52)"
    by (simp add: power_int_def field_simps)
qed simp_all

text \<open>Overflow: the difference of the two doubles of magnitude \<open>2 ^ 1023\<close> is infinite.\<close>

lemma floor_log2_1024: "\<lfloor>log 2 \<bar>2 ^ 1024 :: real\<bar>\<rfloor> = 1024"
proof -
  have "\<lfloor>log 2 (2 ^ 1024 :: real)\<rfloor> = 1024"
    by (subst floor_log_eq_powr_iff) (simp_all add: powr_realpow)
  then show ?thesis by simp
qed

lemma js_sub_overflow:
  "js_sub (Fin (2 ^ 1023)) (Fin (- (2 ^ 1023))) = PInf"
  "clip_delta (js_sub (Fin (2 ^ 1023)) (Fin (- (2 ^ 1023)))) = None"
proof -
  have x: "(2::real) ^ 1023 - - (2 ^ 1023) = 2 ^ 1024" by simp
  have "(2::real) ^ 1024 / 2 powi (1024 - 52) = of_int (2 ^ 52)"
    by (simp add: power_int_def field_simps)
  then have "round_even ((2::real) ^ 1024 / 2 powi (1024 - 52)) = 2 ^ 52"
    by (simp only: round_even_int)
  from round_double_at [OF _ floor_log2_1024 _ this]
  have "round_double (2 ^ 1024) = PInf" by (simp add: power_int_def)
  then show 1: "js_sub (Fin (2 ^ 1023)) (Fin (- (2 ^ 1023))) = PInf"
    unfolding js_sub.simps x .
  show "clip_delta (js_sub (Fin (2 ^ 1023)) (Fin (- (2 ^ 1023)))) = None"
    unfolding 1 by (simp add: clip_delta_def)
qed

text \<open>Rounding: \<open>2 ^ 53 + 1\<close> is not a double; the tie goes to the even significand.\<close>

lemma floor_log2_53: "\<lfloor>log 2 \<bar>9007199254740993::real\<bar>\<rfloor> = 53"
proof -
  have "\<lfloor>log 2 (9007199254740993::real)\<rfloor> = 53"
    by (subst floor_log_eq_powr_iff) (simp_all add: powr_realpow)
  then show ?thesis by simp
qed

lemma js_sub_rounds: "js_sub (Fin 9007199254740994) (Fin 1) = Fin 9007199254740992"
proof -
  have "(9007199254740993::real) / 2 powi (53 - 52) = of_int (2 ^ 52) + 1 / 2"
    by (simp add: power_int_def field_simps)
  moreover have "round_even (of_int (2 ^ 52) + 1 / 2) = 2 ^ 52"
    unfolding round_even_def by (simp add: Let_def)
  ultimately have "round_even ((9007199254740993::real) / 2 powi (53 - 52)) = 2 ^ 52"
    by (simp only:)
  from round_double_at [OF _ floor_log2_53 _ this]
  have "round_double 9007199254740993 = Fin 9007199254740992" by (simp add: power_int_def)
  then show ?thesis by simp
qed

subsection \<open>Evaluation on the series with a gap\<close>

lemmas eval_defs = loadData_def Let_def compute_deltas_def d3_group2_def d3_group_def
  group_add_def map_get_def map_set_def filterBuffers_def buffers_def gap_rows_def mk_row_def
  sort_by_year_def js_sort_def d3_ascending_def js_gt_def js_ge_def delta_step_def clip_delta_def
  old_max_def keyExposure_def show_int_numerals round_double_50

lemma filterBuffers_gap: "filterBuffers gap_rows = gap_rows"
  by (simp add: filterBuffers_def gap_rows_def buffers_def mk_row_def)

lemma distinct_gap: "distinct (map row_key (filterBuffers gap_rows))"
  by (simp add: filterBuffers_gap) (simp add: gap_rows_def row_key_def mk_row_def)

lemma deltaAt_gap: "deltaAt (loadData gap_rows) ''FRA'' 2010 30 = Some (Some (Fin 50))"
  by (simp add: deltaAt_def eval_defs)

lemma maxDelta_gap:
  "map_get (maxDeltaByBuffer (loadData gap_rows)) 30 = Some (Fin 50)"
  "map_get (maxDeltaByBuffer (loadData gap_rows)) 75 = None"
  by (simp_all add: eval_defs)

theorem maxDeltaByBuffer_entries_witness:
  "distinct (map row_key (filterBuffers gap_rows))
   \<and> deltaAt (loadData gap_rows) ''FRA'' 2010 30 = Some (Some (Fin 50))
   \<and> map_get (maxDeltaByBuffer (loadData gap_rows)) 30 \<noteq> None
   \<and> map_get (maxDeltaByBuffer (loadData gap_rows)) 30 = Some (Fin 50)
   \<and> (\<exists>i y. deltaAt (loadData gap_rows) i y 30 = Some (Some (Fin 50)))"
proof -
  note t = maxDeltaByBuffer_entries [OF distinct_gap, of 30]
  have "\<exists>i y x. deltaAt (loadData gap_rows) i y 30 = Some (Some (Fin x)) \<and> 0 < x"
    using deltaAt_gap by (intro exI [of _ "''FRA''"] exI [of _ 2010] exI [of _ 50]) simp
  with t have 1: "map_get (maxDeltaByBuffer (loadData gap_rows)) 30 \<noteq> None" by blast
  from t maxDelta_gap(1)
  have "\<exists>x. Fin 50 = Fin x \<and> 0 < x
      \<and> (\<exists>i y. deltaAt (loadData gap_rows) i y 30 = Some (Some (Fin x)))" by blast
  then have 2: "\<exists>i y. deltaAt (loadData gap_rows) i y 30 = Some (Some (Fin 50))" by auto
  from distinct_gap deltaAt_gap 1 maxDelta_gap(1) 2 show ?thesis by (simp only: simp_thms)
qed

theorem maxPositiveDelta_is_max_witness:
  "distinct (map row_key (filterBuffers gap_rows))
   \<and> deltaAt (loadData gap_rows) ''FRA'' 2010 30 = Some (Some (Fin 50))
   \<and> maxDeltaPeople (loadData gap_rows) 30
       = Fin (Max {x. \<exists>i y. deltaAt (loadData gap_rows) i y 30 = Some (Some (Fin x))})
   \<and> \<not> (\<exists>i y x. deltaAt (loadData gap_rows) i y 75 = Some (Some (Fin x)) \<and> 0 < x)
   \<and> maxDeltaPeople (loadData gap_rows) 75 = Fin 1"
proof -
  have "\<exists>i y x. deltaAt (loadData gap_rows) i y 30 = Some (Some (Fin x)) \<and> 0 < x"
    using deltaAt_gap by (intro exI [of _ "''FRA''"] exI [of _ 2010] exI [of _ 50]) simp
  with maxPositiveDelta_is_max [OF distinct_gap, of 30]
  have 1: "maxDeltaPeople (loadData gap_rows) 30
       = Fin (Max {x. \<exists>i y. deltaAt (loadData gap_rows) i y 30 = Some (Some (Fin x))})" by blast
  have 2: "\<not> (\<exists>i y x. deltaAt (loadData gap_rows) i y 75 = Some (Some (Fin x)) \<and> 0 < x)"
    using max_entry_iff [OF distinct_gap, of 75] maxDelta_gap(2) by simp
  with maxPositiveDelta_is_max [OF distinct_gap, of 75]
  have 3: "maxDeltaPeople (loadData gap_rows) 75 = Fin 1" by blast
  from distinct_gap deltaAt_gap 1 2 3 show ?thesis by (simp only: simp_thms)
qed

text \<open>
  C1, at the series with a gap. The entity has rows for 1990 and 2010 at buffer 30 and
  none for 2000. The point index has no record for 2000 and the earliest year carries
  \<open>null\<close>, yet the delta stored for 2010 is a number, the difference to the 1990
  population: the walk compares with the previous record of the series, not with the
  record of the previous year of the sequence.
\<close>

theorem delta_across_gap:
  "map_get (exposureByKey (loadData gap_rows)) (keyExposure ''FRA'' 2000 30) = None
   \<and> deltaAt (loadData gap_rows) ''FRA'' 1990 30 = Some None
   \<and> deltaAt (loadData gap_rows) ''FRA'' 2010 30 = Some (Some (Fin 50))"
  by (simp add: deltaAt_def build_exposureByKey_def eval_defs)

subsection \<open>Playback\<close>

lemma inv_init: "playback_inv init_app"
  by (simp add: playback_inv_def init_app_def)

lemma inv_start: "playback_inv a \<Longrightarrow> \<not> playing (state a) \<Longrightarrow> playback_inv (startPlayback a)"
  by (simp add: playback_inv_def startPlayback_def Let_def map_set_def)

lemma inv_stop: "playback_inv a \<Longrightarrow> playback_inv (stopPlayback a)"
  by (auto simp: playback_inv_def stopPlayback_def Let_def clearInterval_def split: if_splits)

lemma inv_tick: "playback_inv a \<Longrightarrow> playback_inv (tick h a)"
  by (auto simp: playback_inv_def tick_def Let_def map_get_def map_set_def split: if_splits option.splits)

lemma inv_fire: "playback_inv a \<Longrightarrow> playback_inv (fire e a)"
proof (cases e)
  case PlayClick
  assume "playback_inv a"
  with PlayClick show ?thesis by (simp add: inv_start inv_stop)
next
  case (TimerTick h)
  assume "playback_inv a"
  with TimerTick show ?thesis by (simp add: inv_tick)
qed (auto simp: playback_inv_def split: if_splits)

lemma reachable_inv: "reachable a \<Longrightarrow> playback_inv a"
  by (induction rule: reachable.induct) (simp_all add: inv_init inv_fire)

text \<open>
  C5. In every state reachable through the handlers and the timer callback at most one
  timer is active. A click on the play button while playing does not start a second
  timer: the handler runs \<open>stopPlayback\<close>, after which no timer is active. While stopped,
  \<open>stopPlayback\<close> leaves the state unchanged, and a click starts exactly one timer.
  (\<open>startPlayback\<close> itself has no guard, see \<open>startPlayback_twice\<close>; the guard is the
  toggle in the click handler, its only caller.)
\<close>

theorem playback_single_timer:
  assumes "reachable a"
  shows "length (timers a) \<le> 1
    \<and> (playing (state a) \<longrightarrow> fire PlayClick a = stopPlayback a \<and> length (timers (fire PlayClick a)) = 0)
    \<and> (\<not> playing (state a) \<longrightarrow> stopPlayback a = a \<and> length (timers (fire PlayClick a)) = 1)"
proof -
  from reachable_inv [OF assms] have i: "playback_inv a" .
  from inv_fire [OF i, of PlayClick] have j: "playback_inv (fire PlayClick a)" .
  have 1: "length (timers a) \<le> 1" using i by (auto simp: playback_inv_def split: if_splits)
  have 2: "playing (state a) \<longrightarrow> fire PlayClick a = stopPlayback a \<and> length (timers (fire PlayClick a)) = 0"
    using i by (auto simp: playback_inv_def stopPlayback_def clearInterval_def Let_def)
  have 3: "\<not> playing (state a) \<longrightarrow> stopPlayback a = a \<and> length (timers (fire PlayClick a)) = 1"
    using i by (auto simp: playback_inv_def stopPlayback_def startPlayback_def Let_def map_set_def)
  from 1 2 3 show ?thesis by blast
qed

lemma startPlayback_twice: "length (timers (startPlayback (startPlayback init_app))) = 2"
  by (simp add: startPlayback_def init_app_def Let_def map_set_def)

theorem playback_single_timer_witness:
  "reachable (fire PlayClick init_app) \<and> playing (state (fire PlayClick init_app))
   \<and> length (timers (fire PlayClick init_app)) \<le> 1
   \<and> fire PlayClick (fire PlayClick init_app) = stopPlayback (fire PlayClick init_app)
   \<and> length (timers (fire PlayClick (fire PlayClick init_app))) = 0
   \<and> reachable init_app \<and> \<not> playing (state init_app) \<and> stopPlayback init_app = init_app"
proof -
  have r: "reachable (fire PlayClick init_app)"
    by (rule reachable_fire) (rule reachable_init)
  have p: "playing (state (fire PlayClick init_app))"
    by (simp add: init_app_def startPlayback_def Let_def)
  have q: "\<not> playing (state init_app)" by (simp add: init_app_def)
  from playback_single_timer [OF reachable_init] q
  have "stopPlayback init_app = init_app" by blast
  with playback_single_timer [OF r] p r q reachable_init show ?thesis by simp
qed













subsection \<open>Resolution of entity codes\<close>

lemma scan_candidates_find:
  "scan_candidates cs =
     (case find resolves cs of
        None \<Rightarrow> None
      | Some c \<Rightarrow> Some (alias_or (toUpperCase (trim (to_string c)))))"
  by (induction cs) (simp_all add: resolves_def Let_def)

lemma to_upper_letter: "is_letter u \<Longrightarrow> is_upper (to_upper u)"
  by (auto simp: is_letter_def is_upper_def to_upper_def)

lemma alias_or_cases:
  "alias_or u = (if u = js_lit ''ANT'' then js_lit ''NLD'' else if u = js_lit ''KOS'' then js_lit ''XKX'' else u)"
  by (simp add: alias_or_def alias_table_def js_lit_def)

lemma upper_code:
  assumes "three_letters s"
  shows "length (alias_or (toUpperCase s)) = 3 \<and> list_all is_upper (alias_or (toUpperCase s))"
proof -
  have 1: "length (toUpperCase s) = 3" using assms by (simp add: three_letters_def toUpperCase_def)
  have 2: "list_all is_upper (toUpperCase s)"
    using assms by (simp add: three_letters_def toUpperCase_def list_all_iff to_upper_letter)
  have 3: "list_all is_upper (js_lit ''NLD'')" "list_all is_upper (js_lit ''XKX'')"
    "length (js_lit ''NLD'') = 3" "length (js_lit ''XKX'') = 3"
    by (simp_all add: is_upper_def js_lit_def)
  from 1 2 3 show ?thesis by (simp add: alias_or_cases)
qed

text \<open>
  C8. \<open>featureIso3\<close> returns what the first resolving candidate gives, the candidates
  taken in this order: the feature id, then the properties \<open>iso_a3\<close>, \<open>ISO_A3\<close>,
  \<open>adm0_a3\<close>, \<open>ADM0_A3\<close>, \<open>iso3\<close>, \<open>ISO3\<close>. A candidate resolves when it is present and
  is exactly three letters (tested on its string form with white space at the ends
  removed); its code is put in upper case and remapped through the alias table (ANT to
  NLD, KOS to XKX, every other code to itself). The result is \<open>null\<close> exactly when no
  candidate resolves, and a code that is returned is three upper case letters.
\<close>

theorem featureIso3_resolution:
  "featureIso3 f =
     (case find resolves
        [feature_id f, property f ''iso_a3'', property f ''ISO_A3'', property f ''adm0_a3'',
         property f ''ADM0_A3'', property f ''iso3'', property f ''ISO3''] of
        None \<Rightarrow> None
      | Some c \<Rightarrow> Some (alias_or (toUpperCase (trim (to_string c)))))
   \<and> (featureIso3 f = None \<longleftrightarrow>
        \<not> (\<exists>c\<in>set [feature_id f, property f ''iso_a3'', property f ''ISO_A3'',
                      property f ''adm0_a3'', property f ''ADM0_A3'', property f ''iso3'',
                      property f ''ISO3'']. resolves c))
   \<and> (\<forall>code. featureIso3 f = Some code \<longrightarrow> length code = 3 \<and> list_all is_upper code)
   \<and> alias_or (js_lit ''ANT'') = js_lit ''NLD'' \<and> alias_or (js_lit ''KOS'') = js_lit ''XKX''
   \<and> (\<forall>u. u \<noteq> js_lit ''ANT'' \<and> u \<noteq> js_lit ''KOS'' \<longrightarrow> alias_or u = u)"
proof -
  let ?cs = "[feature_id f, property f ''iso_a3'', property f ''ISO_A3'', property f ''adm0_a3'',
         property f ''ADM0_A3'', property f ''iso3'', property f ''ISO3'']"
  have 1: "featureIso3 f =
     (case find resolves ?cs of
        None \<Rightarrow> None
      | Some c \<Rightarrow> Some (alias_or (toUpperCase (trim (to_string c)))))"
    unfolding featureIso3_def candidates_def by (rule scan_candidates_find)
  have 2: "featureIso3 f = None \<longleftrightarrow> \<not> (\<exists>c\<in>set ?cs. resolves c)"
  proof (cases "find resolves ?cs")
    case None
    then have "\<not> (\<exists>c\<in>set ?cs. resolves c)" unfolding find_None_iff by blast
    moreover from None have "featureIso3 f = None" by (simp only: 1 option.case)
    ultimately show ?thesis by (simp only: simp_thms)
  next
    case (Some c)
    from find_SomeD [OF Some] have "\<exists>c\<in>set ?cs. resolves c" by blast
    moreover from Some have "featureIso3 f \<noteq> None" by (simp only: 1 option.case) simp
    ultimately show ?thesis by (simp only: simp_thms)
  qed
  have 3: "\<forall>code. featureIso3 f = Some code \<longrightarrow> length code = 3 \<and> list_all is_upper code"
  proof (intro allI impI)
    fix code
    assume a: "featureIso3 f = Some code"
    show "length code = 3 \<and> list_all is_upper code"
    proof (cases "find resolves ?cs")
      case None
      with a show ?thesis by (simp only: 1 option.case) simp
    next
      case (Some c)
      with a have c: "code = alias_or (toUpperCase (trim (to_string c)))"
        by (simp only: 1 option.case) simp
      from find_SomeD [OF Some] have "resolves c" by simp
      then have "three_letters (trim (to_string c))" by (simp add: resolves_def)
      from upper_code [OF this] c show ?thesis by simp
    qed
  qed
  have 4: "alias_or (js_lit ''ANT'') = js_lit ''NLD''" "alias_or (js_lit ''KOS'') = js_lit ''XKX''"
    "\<forall>u. u \<noteq> js_lit ''ANT'' \<and> u \<noteq> js_lit ''KOS'' \<longrightarrow> alias_or u = u"
    by (simp_all add: alias_or_cases) (simp_all add: js_lit_def)
  from 1 2 3 4 show ?thesis by (simp only: simp_thms)
qed

lemmas feature_eval = property_def resolves_def js_lit_def show_int_def show_nat.simps
  digit_char_def trim_def is_space_def three_letters_def is_letter_def toUpperCase_def
  to_upper_def alias_or_def alias_table_def

theorem featureIso3_resolution_witness:
  "featureIso3 feature_competing = Some (js_lit ''FRA'')
   \<and> featureIso3 example_feature = Some (js_lit ''NLD'')
   \<and> featureIso3 feature_padded = Some (js_lit ''XKX'')
   \<and> featureIso3 feature_unresolved = None
   \<and> length (js_lit ''NLD'') = 3 \<and> list_all is_upper (js_lit ''NLD'')"
proof -
  have 1: "featureIso3 feature_competing = Some (js_lit ''FRA'')"
    using featureIso3_resolution [of feature_competing]
    by (simp add: feature_competing_def feature_eval)
  have 2: "featureIso3 example_feature = Some (js_lit ''NLD'')"
    using featureIso3_resolution [of example_feature]
    by (simp add: example_feature_def feature_eval)
  have 3: "featureIso3 feature_padded = Some (js_lit ''XKX'')"
    using featureIso3_resolution [of feature_padded]
    by (simp add: feature_padded_def feature_eval)
  have 4: "featureIso3 feature_unresolved = None"
    using featureIso3_resolution [of feature_unresolved]
    by (simp add: feature_unresolved_def feature_eval)
  from featureIso3_resolution [of example_feature] 2
  have 5: "length (js_lit ''NLD'') = 3 \<and> list_all is_upper (js_lit ''NLD'')" by blast
  from 1 2 3 4 5 show ?thesis by (simp only: simp_thms)
qed

subsection \<open>Rank reads and the percentile\<close>

lemma rank_map_absent:
  assumes "i \<notin> iso3 ` set (rank_subset rows y b)"
  shows "map_get (rank_map rows y b) i = None"
proof -
  let ?S = "rank_sorted rows y b"
  have "find (\<lambda>p. (\<lambda>(d, idx). iso3 d) p = i) (rev (zip ?S [0..<length ?S])) = None"
  proof (rule ccontr)
    assume "find (\<lambda>p. (\<lambda>(d, idx). iso3 d) p = i) (rev (zip ?S [0..<length ?S])) \<noteq> None"
    then obtain p where "find (\<lambda>p. (\<lambda>(d, idx). iso3 d) p = i) (rev (zip ?S [0..<length ?S])) = Some p"
      by auto
    from find_SomeD [OF this] have "p \<in> set (zip ?S [0..<length ?S])" "iso3 (fst p) = i"
      by (simp_all add: case_prod_unfold)
    then have "(fst p, snd p) \<in> set (zip ?S [0..<length ?S])" by simp
    then have "fst p \<in> set ?S" by (rule set_zip_leftD)
    with \<open>iso3 (fst p) = i\<close> assms show False by (auto simp: rank_sorted_def set_js_sort)
  qed
  moreover have "rank_map rows y b = foldl (\<lambda>m p. map_set ((\<lambda>(d, idx). iso3 d) p) ((\<lambda>(d, idx). idx + 1) p) m) []
      (zip ?S [0..<length ?S])"
    by (simp add: rank_map_def Let_def case_prod_unfold)
  ultimately show ?thesis by (simp add: map_get_def map_of_foldl_set)
qed

lemma rank_lookup_outside:
  assumes "\<not> (y \<in> set years \<and> b \<in> set buffers)"
  shows "map_get (build_rankByYearBuffer rows) (keyYearBuffer y b) = None"
  using assms
  by (auto simp: build_rankByYearBuffer_def years_def buffers_def map_get_def map_set_def
      update_conv')

text \<open>
  C9. When the entity has no row with a non-null percentage at the (year, buffer) pair,
  the rank read is absent (no error value arises in the model: every read is guarded),
  and the percentile is skipped. The percentile is skipped whenever the rank or the
  denominator is absent or zero, and whenever it is computed the denominator is not zero
  and the result is the finite quotient.
\<close>

theorem rank_absent_skips_percentile:
  "(\<not> (\<exists>d\<in>set (countryRows (loadData raw)).
          iso3 d = i \<and> year d = y \<and> buffer_km d = b \<and> pct_near d \<noteq> None) \<longrightarrow>
      detail_rank (loadData raw) i y b = None
      \<and> pctRank (detail_rank (loadData raw) i y b) (detail_denom (loadData raw) y b) = None)
   \<and> (\<forall>r d. r = None \<or> r = Some 0 \<or> d = None \<or> d = Some 0 \<longrightarrow> pctRank r d = None)
   \<and> (\<forall>r d p. pctRank r d = Some p \<longrightarrow>
        (\<exists>rv dv. r = Some rv \<and> d = Some dv \<and> rv \<noteq> 0 \<and> dv \<noteq> 0
           \<and> p = Fin (real rv / real dv * 100)))"
proof (intro conjI impI allI)
  assume a: "\<not> (\<exists>d\<in>set (countryRows (loadData raw)).
          iso3 d = i \<and> year d = y \<and> buffer_km d = b \<and> pct_near d \<noteq> None)"
  then have n: "i \<notin> iso3 ` set (rank_subset (filterBuffers raw) y b)"
    by (auto simp: loadData_def Let_def rank_subset_def)
  show r: "detail_rank (loadData raw) i y b = None"
  proof (cases "y \<in> set years \<and> b \<in> set buffers")
    case True
    then have "map_get (rankByYearBuffer (loadData raw)) (keyYearBuffer y b)
        = Some (rank_map (filterBuffers raw) y b)"
      by (simp add: loadData_def Let_def rank_lookup)
    with rank_map_absent [OF n] show ?thesis by (simp add: detail_rank_def)
  next
    case False
    from rank_lookup_outside [OF this, of "filterBuffers raw"] show ?thesis
      by (simp add: detail_rank_def loadData_def Let_def)
  qed
  show "pctRank (detail_rank (loadData raw) i y b) (detail_denom (loadData raw) y b) = None"
    by (simp add: r pctRank_def)
next
  fix r d :: "nat option"
  assume "r = None \<or> r = Some 0 \<or> d = None \<or> d = Some 0"
  then show "pctRank r d = None" by (auto simp: pctRank_def split: option.splits)
next
  fix r d :: "nat option" and p
  assume "pctRank r d = Some p"
  then show "\<exists>rv dv. r = Some rv \<and> d = Some dv \<and> rv \<noteq> 0 \<and> dv \<noteq> 0 \<and> p = Fin (real rv / real dv * 100)"
    by (auto simp: pctRank_def js_div_def split: option.splits if_splits)
qed

theorem rank_absent_skips_percentile_witness:
  "\<not> (\<exists>d\<in>set (countryRows (loadData example_rows)).
          iso3 d = ''ZZZ'' \<and> year d = 2010 \<and> buffer_km d = 30 \<and> pct_near d \<noteq> None)
   \<and> detail_rank (loadData example_rows) ''ZZZ'' 2010 30 = None
   \<and> pctRank (detail_rank (loadData example_rows) ''ZZZ'' 2010 30)
        (detail_denom (loadData example_rows) 2010 30) = None
   \<and> pctRank (Some 2) (Some 0) = None"
proof -
  have h: "\<not> (\<exists>d\<in>set (countryRows (loadData example_rows)).
          iso3 d = ''ZZZ'' \<and> year d = 2010 \<and> buffer_km d = 30 \<and> pct_near d \<noteq> None)"
    by (simp add: loadData_def Let_def filterBuffers_example mk_row_def)
  from rank_absent_skips_percentile [of example_rows "''ZZZ''" 2010 30] h
  have 1: "detail_rank (loadData example_rows) ''ZZZ'' 2010 30 = None
      \<and> pctRank (detail_rank (loadData example_rows) ''ZZZ'' 2010 30)
          (detail_denom (loadData example_rows) 2010 30) = None"
    and 2: "\<forall>r d. r = None \<or> r = Some 0 \<or> d = None \<or> d = Some 0 \<longrightarrow> pctRank r d = None"
    by blast+
  from 2 have "pctRank (Some 2) (Some 0) = None" by blast
  with h 1 show ?thesis by blast
qed

subsection \<open>The delta index, row by row\<close>

text \<open>
  What the walk stores for a row, under unique keys: \<open>null\<close> when its series has no
  earlier record, and otherwise the clipped difference to the latest earlier record of
  the series. When the record of the previous year of the sequence is present, it is
  that latest earlier record (\<open>delta_with_previous_decade\<close>); a stored delta is never
  negative (\<open>delta_never_negative\<close>).
\<close>

lemma map_of_group_add:
  "map_of (group_add k x m) =
     (map_of m)(k \<mapsto> (case map_of m k of None \<Rightarrow> [x] | Some g \<Rightarrow> g @ [x]))"
  by (simp add: group_add_def map_get_def map_set_def update_conv' split: option.splits)

lemma distinct_group_add: "distinct (map fst m) \<Longrightarrow> distinct (map fst (group_add k x m))"
  by (simp add: group_add_def map_get_def map_set_def distinct_update split: option.splits)

lemma distinct_d3_group: "distinct (map fst (d3_group key xs))"
  by (induction xs rule: rev_induct) (simp_all add: d3_group_def distinct_group_add)

lemma map_of_d3_group:
  "map_of (d3_group key xs) k =
     (if k \<in> key ` set xs then Some (filter (\<lambda>x. key x = k) xs) else None)"
proof (induction xs rule: rev_induct)
  case Nil
  then show ?case by (simp add: d3_group_def)
next
  case (snoc x xs)
  have e: "key x \<notin> key ` set xs \<Longrightarrow> filter (\<lambda>z. key z = key x) xs = []"
    unfolding filter_empty_conv by (metis imageI)
  show ?case unfolding d3_group_snoc map_of_group_add using snoc e by auto
qed

lemma d3_group_member:
  "(k, g) \<in> set (d3_group key xs) \<longleftrightarrow> k \<in> key ` set xs \<and> g = filter (\<lambda>x. key x = k) xs"
proof -
  have "(k, g) \<in> set (d3_group key xs) \<longleftrightarrow> map_of (d3_group key xs) k = Some g"
    using distinct_d3_group [of key xs] by simp
  then show ?thesis by (auto simp: map_of_d3_group)
qed

lemma series_events:
  assumes "r \<in> set rows"
  shows "set (walk_events (iso3 r) (buffer_km r) None (sort_by_year (series rows r)))
    \<subseteq> set (all_events rows)"
proof -
  let ?g = "filter (\<lambda>d. iso3 d = iso3 r) rows"
  have r: "r \<in> set ?g" using assms by simp
  have 1: "(iso3 r, ?g) \<in> set (d3_group iso3 rows)"
    using assms by (simp add: d3_group_member)
  then have 2: "(iso3 r, d3_group buffer_km ?g) \<in> set (d3_group2 iso3 buffer_km rows)"
    by (force simp: d3_group2_def)
  have "(buffer_km r, filter (\<lambda>d. buffer_km d = buffer_km r) ?g) \<in> set (d3_group buffer_km ?g)"
    using r by (simp only: d3_group_member) blast
  moreover have "filter (\<lambda>d. buffer_km d = buffer_km r) ?g = series rows r"
    by (simp add: series_def conj_commute)
  ultimately have 3: "(buffer_km r, series rows r) \<in> set (d3_group buffer_km ?g)" by simp
  have "set (walk_events (iso3 r) (buffer_km r) None (sort_by_year (series rows r)))
      \<subseteq> set (group_events (iso3 r, d3_group buffer_km ?g))"
    using 3 by (force simp: group_events_def)
  also have "\<dots> \<subseteq> set (all_events rows)"
    using 2 by (force simp: all_events_def)
  finally show ?thesis .
qed

lemma walk_events_nth:
  "j < length S \<Longrightarrow>
   walk_events i b prev S ! j = step_event i b (if j = 0 then prev else Some (S ! (j - 1))) (S ! j)"
proof (induction S arbitrary: prev j)
  case Nil
  then show ?case by simp
next
  case (Cons s S)
  show ?case
  proof (cases j)
    case 0
    then show ?thesis by simp
  next
    case (Suc j')
    with Cons.prems have "j' < length S" by simp
    from Cons.IH [OF this, of "Some s"] Suc show ?thesis by (cases j') simp_all
  qed
qed

lemma length_walk_events: "length (walk_events i b prev S) = length S"
  by (induction S arbitrary: prev) simp_all

lemma sort_by_year_sort_key: "sort_by_year rs = sort_key year rs"
  unfolding sort_by_year_def
  by (rule js_sort_eq_sort_key) (simp add: d3_ascending_def js_gt_def js_ge_def)

lemma series_years_distinct:
  assumes "distinct (map row_key rows)"
  shows "distinct (map year (series rows r))"
proof -
  from assms have d: "distinct rows" and i: "inj_on row_key (set rows)"
    by (simp_all add: distinct_map)
  have "inj_on year (set (series rows r))"
  proof (rule inj_onI)
    fix x z
    assume x: "x \<in> set (series rows r)" and z: "z \<in> set (series rows r)" and e: "year x = year z"
    then have "row_key x = row_key z" by (simp add: series_def row_key_def)
    with i x z show "x = z" by (auto simp: series_def dest: inj_onD)
  qed
  with d show ?thesis by (simp add: distinct_map series_def)
qed

lemma strict_sorted_series:
  assumes "distinct (map row_key rows)"
  shows "sorted_wrt (<) (map year (sort_by_year (series rows r)))"
proof -
  have "sorted (map year (sort_key year (series rows r)))" by simp
  moreover have "distinct (map year (sort_key year (series rows r)))"
    using series_years_distinct [OF assms, of r] by (simp add: distinct_map)
  ultimately show ?thesis
    by (simp add: sort_by_year_sort_key strict_sorted_iff)
qed

lemma delta_of_position:
  assumes uniq: "distinct (map row_key rows)" and r: "r \<in> set rows"
    and j: "j < length (sort_by_year (series rows r))"
    and at: "sort_by_year (series rows r) ! j = r"
  shows "map_of (fst (compute_deltas rows)) (keyExposure (iso3 r) (year r) (buffer_km r))
      = Some (snd (snd (step_event (iso3 r) (buffer_km r)
          (if j = 0 then None else Some (sort_by_year (series rows r) ! (j - 1))) r)))"
proof -
  let ?S = "sort_by_year (series rows r)"
  let ?evs = "walk_events (iso3 r) (buffer_km r) None ?S"
  let ?e = "step_event (iso3 r) (buffer_km r) (if j = 0 then None else Some (?S ! (j - 1))) r"
  have "?evs ! j = ?e" using walk_events_nth [OF j, of "iso3 r" "buffer_km r" None] at by simp
  moreover have "j < length ?evs" using j by (simp add: length_walk_events)
  ultimately have "?e \<in> set ?evs" by (metis nth_mem)
  with series_events [OF r] have "?e \<in> set (all_events rows)" by blast
  moreover have "?e = (keyExposure (iso3 r) (year r) (buffer_km r), buffer_km r, snd (snd ?e))"
    by (simp add: step_event_def)
  ultimately have "(keyExposure (iso3 r) (year r) (buffer_km r), buffer_km r, snd (snd ?e))
      \<in> set (all_events rows)" by simp
  from index_of_event [OF uniq this] show ?thesis .
qed

lemma delta_index_characterisation:
  assumes uniq: "distinct (map row_key (filterBuffers raw))" and r: "r \<in> set (filterBuffers raw)"
  shows "(\<not> (\<exists>p\<in>set (series (filterBuffers raw) r). year p < year r) \<longrightarrow>
            deltaAt (loadData raw) (iso3 r) (year r) (buffer_km r) = Some None)
    \<and> (\<forall>p\<in>set (series (filterBuffers raw) r).
          year p < year r \<and> (\<forall>q\<in>set (series (filterBuffers raw) r). year q < year r \<longrightarrow> year q \<le> year p) \<longrightarrow>
          deltaAt (loadData raw) (iso3 r) (year r) (buffer_km r)
            = Some (clip_delta (js_sub (to_number (pop_near r)) (to_number (pop_near p)))))"
proof -
  let ?rows = "filterBuffers raw"
  let ?S = "sort_by_year (series ?rows r)"
  have setS: "set ?S = set (series ?rows r)" by (simp add: sort_by_year_def set_js_sort)
  have "r \<in> set (series ?rows r)" using r by (simp add: series_def)
  then have "r \<in> set ?S" by (simp only: setS)
  then obtain j where j: "j < length ?S" and at: "?S ! j = r" by (auto simp: in_set_conv_nth)
  have strict: "sorted_wrt (<) (map year ?S)" by (rule strict_sorted_series [OF uniq])
  have lt: "\<And>a c. a < c \<Longrightarrow> c < length ?S \<Longrightarrow> year (?S ! a) < year (?S ! c)"
  proof -
    fix a c
    assume "a < c" "c < length ?S"
    with sorted_wrt_nth_less [OF strict, of a c] show "year (?S ! a) < year (?S ! c)" by simp
  qed
  note d = delta_of_position [OF uniq r j at]
  have A: "\<not> (\<exists>p\<in>set (series ?rows r). year p < year r) \<longrightarrow>
      deltaAt (loadData raw) (iso3 r) (year r) (buffer_km r) = Some None"
  proof
    assume n: "\<not> (\<exists>p\<in>set (series ?rows r). year p < year r)"
    have "j = 0"
    proof (rule ccontr)
      assume "j \<noteq> 0"
      then have "j - 1 < j" by simp
      from lt [OF this j] at have "year (?S ! (j - 1)) < year r" by simp
      moreover have "?S ! (j - 1) \<in> set (series ?rows r)"
        using j setS by (metis less_imp_diff_less nth_mem)
      ultimately show False using n by blast
    qed
    with d show "deltaAt (loadData raw) (iso3 r) (year r) (buffer_km r) = Some None"
      by (simp add: deltaAt_store step_event_def)
  qed
  have B: "\<forall>p\<in>set (series ?rows r).
      year p < year r \<and> (\<forall>q\<in>set (series ?rows r). year q < year r \<longrightarrow> year q \<le> year p) \<longrightarrow>
      deltaAt (loadData raw) (iso3 r) (year r) (buffer_km r)
        = Some (clip_delta (js_sub (to_number (pop_near r)) (to_number (pop_near p))))"
  proof (intro ballI impI)
    fix p
    assume p: "p \<in> set (series ?rows r)"
      and h: "year p < year r \<and> (\<forall>q\<in>set (series ?rows r). year q < year r \<longrightarrow> year q \<le> year p)"
    from p obtain k where k: "k < length ?S" and pk: "?S ! k = p"
      by (auto simp: setS [symmetric] in_set_conv_nth)
    have kj: "k < j"
    proof (rule ccontr)
      assume "\<not> k < j"
      then consider "k = j" | "j < k" by linarith
      then show False
      proof cases
        case 1
        with pk at h show False by simp
      next
        case 2
        from lt [OF this k] pk at h show False by simp
      qed
    qed
    then have j0: "j \<noteq> 0" by simp
    let ?q = "?S ! (j - 1)"
    have qin: "?q \<in> set (series ?rows r)"
      using j setS by (metis less_imp_diff_less nth_mem)
    have "year ?q < year r" using lt [of "j - 1" j] j j0 at by simp
    with h qin have le1: "year ?q \<le> year p" by blast
    have le2: "year p \<le> year ?q"
    proof (cases "k = j - 1")
      case True
      with pk show ?thesis by simp
    next
      case False
      with kj have "k < j - 1" by simp
      moreover from j have "j - 1 < length ?S" by simp
      ultimately have "year (?S ! k) < year ?q" by (rule lt)
      with pk show ?thesis by simp
    qed
    from le1 le2 have "year ?q = year p" by simp
    moreover have "inj_on year (set (series ?rows r))"
      using series_years_distinct [OF uniq, of r] by (simp add: distinct_map)
    ultimately have "?q = p" using qin p by (auto dest: inj_onD)
    with d j0 show "deltaAt (loadData raw) (iso3 r) (year r) (buffer_km r)
        = Some (clip_delta (js_sub (to_number (pop_near r)) (to_number (pop_near p))))"
      by (simp add: deltaAt_store step_event_def)
  qed
  from A B show ?thesis ..
qed

lemma clip_delta_finite: "clip_delta (Fin d) = Some (Fin (max 0 d))"
  by (simp add: clip_delta_def max_def)

lemma clip_delta_not_finite: "\<not> isFinite d \<Longrightarrow> clip_delta d = None"
  by (simp add: clip_delta_def)

lemma delta_earliest_year:
  assumes uniq: "distinct (map row_key (filterBuffers raw))"
    and yrs: "\<forall>d\<in>set (filterBuffers raw). year d \<in> set years"
    and r: "r \<in> set (filterBuffers raw)" and y: "year r = hd years"
  shows "deltaAt (loadData raw) (iso3 r) (year r) (buffer_km r) = Some None"
proof -
  have "\<not> (\<exists>p\<in>set (series (filterBuffers raw) r). year p < year r)"
    using yrs y by (auto simp: series_def years_def)
  with delta_index_characterisation [OF uniq r] show ?thesis by blast
qed

lemma delta_with_previous_decade:
  assumes uniq: "distinct (map row_key (filterBuffers raw))"
    and yrs: "\<forall>d\<in>set (filterBuffers raw). year d \<in> set years"
    and r: "r \<in> set (filterBuffers raw)" and p: "p \<in> set (filterBuffers raw)"
    and same: "iso3 p = iso3 r" "buffer_km p = buffer_km r" and prev: "year p = year r - 10"
  shows "deltaAt (loadData raw) (iso3 r) (year r) (buffer_km r)
      = Some (clip_delta (js_sub (to_number (pop_near r)) (to_number (pop_near p))))"
proof -
  have ps: "p \<in> set (series (filterBuffers raw) r)" using p same by (simp add: series_def)
  have "\<forall>q\<in>set (series (filterBuffers raw) r). year q < year r \<longrightarrow> year q \<le> year p"
  proof (intro ballI impI)
    fix q
    assume "q \<in> set (series (filterBuffers raw) r)" and lt: "year q < year r"
    with yrs have "year q \<in> set years" by (simp add: series_def)
    moreover from yrs r have "year r \<in> set years" by blast
    ultimately show "year q \<le> year p" using lt prev by (auto simp: years_def)
  qed
  with delta_index_characterisation [OF uniq r] ps prev show ?thesis by simp
qed

lemma delta_without_earlier_record:
  assumes uniq: "distinct (map row_key (filterBuffers raw))"
    and r: "r \<in> set (filterBuffers raw)"
    and none: "\<not> (\<exists>p\<in>set (filterBuffers raw).
        iso3 p = iso3 r \<and> buffer_km p = buffer_km r \<and> year p < year r)"
  shows "deltaAt (loadData raw) (iso3 r) (year r) (buffer_km r) = Some None"
proof -
  from none have "\<not> (\<exists>p\<in>set (series (filterBuffers raw) r). year p < year r)"
    by (auto simp: series_def)
  with delta_index_characterisation [OF uniq r] show ?thesis by blast
qed

end
